theory Spec2Isabelle
  imports Complex_Main "HOL-Library.AList"
begin

section \<open>Exceptions\<close>

text \<open>
  The Python exceptions the sequencing code raises, catches or lets through. A raise is
  the left injection of a sum; \<open>TypeError\<close> stands for the class and its subclasses
  (what \<open>except TypeError\<close> catches), \<open>PyException\<close> for any other class.
\<close>

datatype exn = RuntimeError string | TypeError string | KeyError string | PyException string

section \<open>Compose: application\<close>

text \<open>
  \<open>Compose.__call__\<close> (compose.py, lines 120-123):
  \<^verbatim>\<open>
    def __call__(self, input_):
        for _transform in self.transforms:
            input_ = apply_transform(_transform, input_)
        return input_
  \<close>
  \<open>apply_transform\<close> lives in \<open>monai.transforms.utils\<close>, which is not among the
  sources; it is the parameter \<open>ap\<close>. An exception it raises leaves the loop at once.
\<close>

fun compose_call :: "('t \<Rightarrow> 'd \<Rightarrow> exn + 'd) \<Rightarrow> 't list \<Rightarrow> 'd \<Rightarrow> exn + 'd" where
  "compose_call ap [] input = Inr input"
| "compose_call ap (t # ts) input =
     (case ap t input of
        Inl e \<Rightarrow> Inl e
      | Inr out \<Rightarrow> compose_call ap ts out)"

text \<open>
  The transforms of the test file (tests/test_one_of.py, lines 33-45): classes \<open>A\<close>,
  \<open>B\<close>, \<open>C\<close> with \<open>__call__(self, x)\<close> returning \<open>x + 1\<close>, \<open>x + 2\<close>, \<open>x + 3\<close>.
  The scalars of the scenario are small integers, which binary floating point adds
  exactly, so they are modelled as reals.
\<close>

datatype abc = A | B | C

fun abc_call :: "abc \<Rightarrow> real \<Rightarrow> real" where
  "abc_call A x = x + 1"
| "abc_call B x = x + 2"
| "abc_call C x = x + 3"

text \<open>
  Modelled from the spec: \<open>apply_transform\<close> is missing from the sources; the spec says the
  input is fed through each member, so on a scalar it is the call of the member on it.
\<close>

definition apply_scalar :: "abc \<Rightarrow> real \<Rightarrow> exn + real" where
  "apply_scalar t x = Inr (abc_call t x)"

text \<open>
  The intermediate values of a run: \<open>chain ap ts xs\<close> says that \<open>xs\<close> lists the input
  followed by the output of every step, each step applied to the output of the one before.
\<close>

fun chain :: "('t \<Rightarrow> 'd \<Rightarrow> exn + 'd) \<Rightarrow> 't list \<Rightarrow> 'd list \<Rightarrow> bool" where
  "chain ap [] xs = (length xs = 1)"
| "chain ap (t # ts) xs =
     (case xs of
        x # y # zs \<Rightarrow> ap t x = Inr y \<and> chain ap ts (y # zs)
      | _ \<Rightarrow> False)"

section \<open>Compose: length\<close>

text \<open>
  The static structure of a pipeline: a leaf transform, a nested \<open>Compose\<close>, or a nested
  \<open>OneOf\<close>. \<open>Compose.__len__\<close> (compose.py, lines 116-118):
  \<^verbatim>\<open>
    def __len__(self):
        return sum(len(t) if isinstance(t, Compose) else 1 for t in self.transforms)
  \<close>
\<close>

datatype tnode = Leaf string | ComposeNode "tnode list" | OneOfNode "tnode list"

text \<open>
  Modelled from the spec: the class \<open>OneOf\<close> is missing from the sources. The spec has
  it extend \<open>Compose\<close> (section 4.3), so \<open>isinstance(t, Compose)\<close> holds of a \<open>OneOf\<close>
  and \<open>len(t)\<close> is the inherited \<open>__len__\<close>; tests/test_one_of.py, lines 118-124, asserts
  \<open>len(OneOf((OneOf((X, Y)), OneOf((Y, Y)), X))) = 5\<close>, which is this count.
\<close>

fun isinstance_Compose :: "tnode \<Rightarrow> bool" where
  "isinstance_Compose (Leaf n) = False"
| "isinstance_Compose (ComposeNode ts) = True"
| "isinstance_Compose (OneOfNode ts) = True"

fun members :: "tnode \<Rightarrow> tnode list" where
  "members (Leaf n) = []"
| "members (ComposeNode ts) = ts"
| "members (OneOfNode ts) = ts"

fun len_term :: "tnode \<Rightarrow> nat" where
  "len_term (Leaf n) = 1"
| "len_term (ComposeNode ts) = sum_list (map len_term ts)"
| "len_term (OneOfNode ts) = sum_list (map len_term ts)"

definition compose_len :: "tnode list \<Rightarrow> nat" where
  "compose_len transforms = sum_list (map len_term transforms)"

text \<open>The leaves of a pipeline, every nested pipeline unrolled: the flattened sequence.\<close>

fun leaves :: "tnode \<Rightarrow> string list" where
  "leaves (Leaf n) = [n]"
| "leaves (ComposeNode ts) = concat (map leaves ts)"
| "leaves (OneOfNode ts) = concat (map leaves ts)"

text \<open>The pipeline of tests/test_one_of.py, lines 119-121.\<close>

definition p1 :: tnode where
  "p1 = OneOfNode [Leaf ''X'', Leaf ''Y'']"

definition p2 :: tnode where
  "p2 = OneOfNode [Leaf ''Y'', Leaf ''Y'']"

definition p :: tnode where
  "p = OneOfNode [p1, p2, Leaf ''X'']"

section \<open>Compose: inversion\<close>

text \<open>
  \<open>Compose.inverse\<close> copies its argument and hands the copy to its members, which may
  write to what they are handed. Whether the caller's record survives depends on what is
  shared, so records live in a store: a dictionary object maps its keys to the addresses
  of value objects (arrays), and both kinds of object are mutable. \<open>nxt\<close> is the next
  address the allocator hands out.
\<close>

type_synonym addr = nat

record 'v heap =
  dicts :: "addr \<Rightarrow> (string \<times> addr) list option"
  cells :: "addr \<Rightarrow> 'v option"
  nxt :: addr

text \<open>The argument \<open>data\<close>: a mapping (held in the store), or any other object.\<close>

datatype 'o pyobj = Mapping addr | NonMapping 'o

text \<open>
  A member's \<open>inverse(d, keys)\<close> takes the store, the address of the dictionary and the keys;
  it returns the store as it leaves it, with either the exception it raises or the address
  of the dictionary it returns. \<open>InvertibleTransform\<close> is declared in
  \<open>monai.transforms.inverse_transform\<close>, which is not among the sources: a member either
  is an instance, carrying its own \<open>inverse\<close>, or is not.
\<close>

type_synonym 'v inverse_fn =
  "'v heap \<Rightarrow> addr \<Rightarrow> string list option \<Rightarrow> 'v heap \<times> (exn + addr)"

datatype 'v itransform = ForwardOnly string | Invertible string "'v inverse_fn"

fun isinstance_InvertibleTransform :: "'v itransform \<Rightarrow> bool" where
  "isinstance_InvertibleTransform (ForwardOnly n) = False"
| "isinstance_InvertibleTransform (Invertible n f) = True"

fun inverse_of :: "'v itransform \<Rightarrow> 'v inverse_fn" where
  "inverse_of (Invertible n f) = f"
| "inverse_of (ForwardOnly n) = (\<lambda>h d keys. (h, Inl (PyException ''AttributeError'')))"

definition items :: "'v heap \<Rightarrow> addr \<Rightarrow> (string \<times> addr) list" where
  "items h d = (case dicts h d of None \<Rightarrow> [] | Some kvs \<Rightarrow> kvs)"

text \<open>\<open>dict(data)\<close>: a new dictionary object with the same keys and the same value objects.\<close>

definition dict_copy :: "'v heap \<Rightarrow> addr \<Rightarrow> 'v heap \<times> addr" where
  "dict_copy h d =
     (h\<lparr>dicts := (dicts h)(nxt h := Some (items h d)), nxt := Suc (nxt h)\<rparr>, nxt h)"

text \<open>
  \<open>deepcopy\<close> of a dictionary: a new dictionary object whose values are new copies of the
  value objects. The memo maps every object already copied to its copy, so that two keys
  sharing one value object share one copy.
\<close>

fun copy_items ::
  "'v heap \<Rightarrow> (addr \<times> addr) list \<Rightarrow> (string \<times> addr) list \<Rightarrow> 'v heap \<times> (string \<times> addr) list"
where
  "copy_items h memo [] = (h, [])"
| "copy_items h memo ((k, a) # kvs) =
     (case map_of memo a of
        Some a' \<Rightarrow>
          (let (h', r) = copy_items h memo kvs in (h', (k, a') # r))
      | None \<Rightarrow>
          (let a' = nxt h;
               h1 = h\<lparr>cells := (cells h)(a' := cells h a), nxt := Suc a'\<rparr>;
               (h', r) = copy_items h1 ((a, a') # memo) kvs
           in (h', (k, a') # r)))"

definition deepcopy :: "'v heap \<Rightarrow> addr \<Rightarrow> 'v heap \<times> addr" where
  "deepcopy h d =
     (let (h1, kvs) = copy_items h [] (items h d)
      in (h1\<lparr>dicts := (dicts h1)(nxt h1 := Some kvs), nxt := Suc (nxt h1)\<rparr>, nxt h1))"

text \<open>
  Modelled from the spec: \<open>ensure_tuple\<close> (\<open>monai.utils\<close>) is missing from the sources; it
  normalises its argument to a sequence, and \<open>keys\<close>, typed as a tuple, is one already.
\<close>

definition ensure_tuple_keys :: "string list \<Rightarrow> string list" where
  "ensure_tuple_keys ks = ks"

definition truthy_keys :: "string list option \<Rightarrow> string list option" where
  "truthy_keys keys =
     (case keys of
        None \<Rightarrow> None
      | Some ks \<Rightarrow> if ks \<noteq> [] then Some (ensure_tuple_keys ks) else Some ks)"

text \<open>
  \<open>Compose.inverse\<close> (compose.py, lines 125-137):
  \<^verbatim>\<open>
    def inverse(self, data, keys: Optional[Tuple[Hashable, ...]] = None):
        if not isinstance(data, Mapping):
            raise RuntimeError("Inverse method only available for dictionary transforms")
        d = deepcopy(dict(data))
        if keys:
            keys = ensure_tuple(keys)

        # loop backwards over transforms
        for t in reversed(self.transforms):
            # check if transform is one of the invertible ones
            if isinstance(t, InvertibleTransform):
                d = t.inverse(d, keys)
        return d
  \<close>
  \<open>inverse_loop\<close> is the loop, over the sequence it is given.
\<close>

fun inverse_loop ::
  "'v itransform list \<Rightarrow> 'v heap \<Rightarrow> addr \<Rightarrow> string list option \<Rightarrow> 'v heap \<times> (exn + addr)"
where
  "inverse_loop [] h d keys = (h, Inr d)"
| "inverse_loop (t # ts) h d keys =
     (if isinstance_InvertibleTransform t then
        (case inverse_of t h d keys of
           (h', Inl e) \<Rightarrow> (h', Inl e)
         | (h', Inr d') \<Rightarrow> inverse_loop ts h' d' keys)
      else inverse_loop ts h d keys)"

definition compose_inverse ::
  "'v itransform list \<Rightarrow> 'v heap \<Rightarrow> 'o pyobj \<Rightarrow> string list option \<Rightarrow> 'v heap \<times> (exn + addr)"
where
  "compose_inverse transforms h data keys =
     (case data of
        NonMapping x \<Rightarrow>
          (h, Inl (RuntimeError ''Inverse method only available for dictionary transforms''))
      | Mapping m \<Rightarrow>
          (let (h1, c) = dict_copy h m;
               (h2, d) = deepcopy h1 c
           in inverse_loop (rev transforms) h2 d (truthy_keys keys)))"

text \<open>
  The inverses of a sequence of invertible members applied one after the other, each to
  the store and the dictionary the one before left.
\<close>

fun run_inverses ::
  "'v inverse_fn list \<Rightarrow> 'v heap \<Rightarrow> addr \<Rightarrow> string list option \<Rightarrow> 'v heap \<times> (exn + addr)"
where
  "run_inverses [] h d keys = (h, Inr d)"
| "run_inverses (f # fs) h d keys =
     (case f h d keys of
        (h', Inl e) \<Rightarrow> (h', Inl e)
      | (h', Inr d') \<Rightarrow> run_inverses fs h' d' keys)"

text \<open>
  The value objects a dictionary refers to, and the frame discipline of a member's
  \<open>inverse\<close>: it writes only to the dictionary it is handed, to the value objects of that
  dictionary, and to objects it allocates itself; the dictionary it returns is the one it
  was handed or a new one, and refers only to value objects of these kinds.
\<close>

definition cells_of :: "'v heap \<Rightarrow> addr \<Rightarrow> addr set" where
  "cells_of h d = snd ` set (items h d)"

definition confined :: "'v inverse_fn \<Rightarrow> bool" where
  "confined f \<longleftrightarrow>
     (\<forall>h d keys. case f h d keys of (h', r) \<Rightarrow>
        nxt h \<le> nxt h' \<and>
        (\<forall>a. a < nxt h \<and> a \<noteq> d \<longrightarrow> dicts h' a = dicts h a) \<and>
        (\<forall>c. c < nxt h \<and> c \<notin> cells_of h d \<longrightarrow> cells h' c = cells h c) \<and>
        (case r of
           Inl e \<Rightarrow> True
         | Inr d' \<Rightarrow> (d' = d \<or> nxt h \<le> d') \<and>
                     (\<forall>c. c \<in> cells_of h' d' \<longrightarrow> c \<in> cells_of h d \<or> nxt h \<le> c)))"

text \<open>An object of the store is allocated when its address, and those it refers to, are.\<close>

definition allocated :: "'v heap \<Rightarrow> addr \<Rightarrow> bool" where
  "allocated h d \<longleftrightarrow> d < nxt h \<and> (\<forall>c. c \<in> cells_of h d \<longrightarrow> c < nxt h)"


text \<open>
  A store for the examples: one dictionary \<open>{"x": array}\<close> at address 0 whose value object
  is at address 1; a member whose \<open>inverse\<close> negates the arrays of the dictionary it is
  handed in place and returns that dictionary; and a member whose \<open>inverse\<close> raises.
\<close>

definition h0 :: "int heap" where
  "h0 = \<lparr>dicts = (\<lambda>a. None)(0 := Some [(''x'', 1)]),
         cells = (\<lambda>a. None)(1 := Some 10),
         nxt = 2\<rparr>"

definition negate_in_place :: "int inverse_fn" where
  "negate_in_place h d keys =
     (h\<lparr>cells := (\<lambda>c. if c \<in> cells_of h d then map_option uminus (cells h c) else cells h c)\<rparr>,
      Inr d)"

definition always_raises :: "int inverse_fn" where
  "always_raises h d keys = (h, Inl (KeyError ''x''))"

section \<open>Randomizable members and the propagation of seeds\<close>

text \<open>
  What the sequencer uses and the sources do not hold: numpy's generator
  (\<open>np.random.RandomState(seed)\<close>, with \<open>None\<close> for a generator seeded from the system, and
  \<open>R.randint(high, dtype="uint32")\<close>, which returns the draw and advances the generator), and
  from \<open>monai.utils\<close> the constant \<open>MAX_SEED\<close> and the seed \<open>get_seed()\<close> reads. They are
  parameters of the model; \<open>'g\<close> is the type of generator states.
\<close>

record 'g externals =
  RandomState :: "nat option \<Rightarrow> 'g"
  randint :: "nat \<Rightarrow> 'g \<Rightarrow> nat \<times> 'g"
  MAX_SEED :: nat
  get_seed :: "nat option"

text \<open>
  A member of a pipeline, as far as its generator goes: not \<open>Randomizable\<close>; a
  \<open>Randomizable\<close> transform with its private generator \<open>R\<close>; or a nested \<open>Compose\<close> (which
  is \<open>Randomizable\<close>) with its own generator and its members. Members are values: one
  transform object listed at two positions is two members here.
\<close>

datatype 'g rtransform =
    Plain string
  | Randomizable string 'g
  | Compose 'g "'g rtransform list"

fun isinstance_Randomizable :: "'g rtransform \<Rightarrow> bool" where
  "isinstance_Randomizable (Plain n) = False"
| "isinstance_Randomizable (Randomizable n g) = True"
| "isinstance_Randomizable (Compose g ts) = True"

text \<open>
  Modelled from the spec: \<open>Randomizable.set_random_state\<close> (\<open>monai.transforms.transform\<close>) is
  missing from the sources. By section 4.1 it replaces the generator, from the seed when one
  is given, else by the generator supplied, else by a generator seeded from the system.
\<close>

definition randomizable_set_random_state :: "'g externals \<Rightarrow> nat option \<Rightarrow> 'g option \<Rightarrow> 'g" where
  "randomizable_set_random_state E seed state =
     (case seed of
        Some s \<Rightarrow> RandomState E (Some s)
      | None \<Rightarrow> (case state of Some g \<Rightarrow> g | None \<Rightarrow> RandomState E None))"

text \<open>
  \<open>Compose.set_random_state\<close> (compose.py, lines 96-102):
  \<^verbatim>\<open>
    def set_random_state(self, seed=None, state=None) -> "Compose":
        super().set_random_state(seed=seed, state=state)
        for _transform in self.transforms:
            if not isinstance(_transform, Randomizable):
                continue
            _transform.set_random_state(seed=self.R.randint(MAX_SEED, dtype="uint32"))
        return self
  \<close>
  \<open>seed_members\<close> is the loop: it threads \<open>self.R\<close> and returns it with the members as
  the loop leaves them. \<open>member_set_random_state\<close> is the call on a member, which for a
  nested \<open>Compose\<close> is this method again.
\<close>

fun member_set_random_state :: "'g externals \<Rightarrow> nat \<Rightarrow> 'g rtransform \<Rightarrow> 'g rtransform"
  and seed_members :: "'g externals \<Rightarrow> 'g \<Rightarrow> 'g rtransform list \<Rightarrow> 'g \<times> 'g rtransform list"
where
  "member_set_random_state E s (Plain n) = Plain n"
| "member_set_random_state E s (Randomizable n g) =
     Randomizable n (randomizable_set_random_state E (Some s) None)"
| "member_set_random_state E s (Compose g ts) =
     (case seed_members E (randomizable_set_random_state E (Some s) None) ts of
        (g', ts') \<Rightarrow> Compose g' ts')"
| "seed_members E R [] = (R, [])"
| "seed_members E R (t # ts) =
     (if \<not> isinstance_Randomizable t then
        (case seed_members E R ts of (R', ts') \<Rightarrow> (R', t # ts'))
      else
        (case randint E (MAX_SEED E) R of
           (s, R1) \<Rightarrow>
             (case seed_members E R1 ts of
                (R', ts') \<Rightarrow> (R', member_set_random_state E s t # ts'))))"

definition compose_set_random_state ::
  "'g externals \<Rightarrow> nat option \<Rightarrow> 'g option \<Rightarrow> 'g rtransform list \<Rightarrow> 'g \<times> 'g rtransform list"
where
  "compose_set_random_state E seed state transforms =
     seed_members E (randomizable_set_random_state E seed state) transforms"

text \<open>The seeds the loop passes to the members, in the order it passes them.\<close>

fun child_seeds :: "'g externals \<Rightarrow> 'g \<Rightarrow> 'g rtransform list \<Rightarrow> nat list" where
  "child_seeds E R [] = []"
| "child_seeds E R (t # ts) =
     (if \<not> isinstance_Randomizable t then child_seeds E R ts
      else (case randint E (MAX_SEED E) R of (s, R1) \<Rightarrow> s # child_seeds E R1 ts))"

text \<open>
  The stream of a generator: its state after \<open>k\<close> draws below \<open>MAX_SEED\<close>, and the draw
  it makes then (draw number \<open>k\<close>, counted from 0).
\<close>

fun advance :: "'g externals \<Rightarrow> 'g \<Rightarrow> nat \<Rightarrow> 'g" where
  "advance E R 0 = R"
| "advance E R (Suc k) = advance E (snd (randint E (MAX_SEED E) R)) k"

definition nth_draw :: "'g externals \<Rightarrow> 'g \<Rightarrow> nat \<Rightarrow> nat" where
  "nth_draw E R k = fst (randint E (MAX_SEED E) (advance E R k))"

text \<open>The number of \<open>Randomizable\<close> members before position \<open>i\<close>.\<close>

definition rank :: "'g rtransform list \<Rightarrow> nat \<Rightarrow> nat" where
  "rank ts i = length (filter isinstance_Randomizable (take i ts))"

text \<open>
  \<open>Compose.__init__\<close> (compose.py, lines 90-94):
  \<^verbatim>\<open>
    def __init__(self, transforms=None) -> None:
        if transforms is None:
            transforms = []
        self.transforms = ensure_tuple(transforms)
        self.set_random_state(seed=get_seed())
  \<close>
  The argument is \<open>None\<close>, one callable, or a sequence of callables.
\<close>

datatype 'g ctor_arg = NoneArg | CallableArg "'g rtransform" | SequenceArg "'g rtransform list"

text \<open>
  Modelled from the spec: \<open>ensure_tuple\<close> (\<open>monai.utils\<close>) is missing from the sources; by
  section 6 a single instance or a sequence is normalised to a sequence.
\<close>

fun ensure_tuple :: "'g ctor_arg \<Rightarrow> 'g rtransform list" where
  "ensure_tuple NoneArg = []"
| "ensure_tuple (CallableArg t) = [t]"
| "ensure_tuple (SequenceArg ts) = ts"

definition compose_init :: "'g externals \<Rightarrow> 'g ctor_arg \<Rightarrow> 'g \<times> 'g rtransform list" where
  "compose_init E transforms =
     (let transforms1 = (case transforms of NoneArg \<Rightarrow> SequenceArg [] | _ \<Rightarrow> transforms);
          self_transforms = ensure_tuple transforms1
      in compose_set_random_state E (get_seed E) None self_transforms)"

text \<open>
  A generator for the examples: its state is a number, \<open>RandomState(seed)\<close> starts at the
  seed (at 0 without one), and a draw returns the state reduced below the bound and moves
  to the next number.
\<close>

definition counter_rng :: "nat externals" where
  "counter_rng = \<lparr>RandomState = (\<lambda>seed. case seed of None \<Rightarrow> 0 | Some s \<Rightarrow> s),
                  randint = (\<lambda>high g. (g mod high, Suc g)),
                  MAX_SEED = 4294967296,
                  get_seed = None\<rparr>"

section \<open>Compose: randomize\<close>

text \<open>
  A member, as far as \<open>randomize\<close> goes: not \<open>Randomizable\<close>, or \<open>Randomizable\<close> with
  its class name, its own \<open>randomize\<close> and its private state. A member's \<open>randomize(data)\<close>
  takes the argument and the state and returns the state it leaves, with the exception it
  raises, if any; a signature that rejects the argument raises \<open>TypeError\<close>.
\<close>

type_synonym ('d, 's) randomize_fn = "'d option \<Rightarrow> 's \<Rightarrow> 's \<times> exn option"

datatype ('d, 's) zmember =
    Deterministic string
  | Randomized string "('d, 's) randomize_fn" 's

record warning =
  category :: string
  message :: string

text \<open>
  The warning of compose.py, lines 111-114:
  \<^verbatim>\<open>
    tfm_name: str = type(_transform).__name__
    warnings.warn(
        f'Transform "{tfm_name}" in Compose not randomized\n{tfm_name}.{type_error}.',
        RuntimeWarning)
  \<close>
\<close>

definition not_randomized_warning :: "string \<Rightarrow> string \<Rightarrow> warning" where
  "not_randomized_warning tfm_name type_error =
     \<lparr>category = ''RuntimeWarning'',
      message = ''Transform '' @ [CHR 0x22] @ tfm_name @ [CHR 0x22]
                @ '' in Compose not randomized'' @ [CHR 0x0A]
                @ tfm_name @ ''.'' @ type_error @ ''.''\<rparr>"

text \<open>
  \<open>Compose.randomize\<close> (compose.py, lines 104-114):
  \<^verbatim>\<open>
    def randomize(self, data: Optional[Any] = None) -> None:
        for _transform in self.transforms:
            if not isinstance(_transform, Randomizable):
                continue
            try:
                _transform.randomize(data)
            except TypeError as type_error:
                ... warnings.warn(...)
  \<close>
  The result is the members as the call leaves them, the warnings issued, in order, and
  the exception that ended the call, if one did: an exception that is not a \<open>TypeError\<close>
  is not caught and leaves the loop. \<open>warnings.warn\<close> is Python's, under its default
  filter, where it records the warning and returns.
\<close>

fun compose_randomize ::
  "('d, 's) zmember list \<Rightarrow> 'd option \<Rightarrow> ('d, 's) zmember list \<times> warning list \<times> exn option"
where
  "compose_randomize [] data = ([], [], None)"
| "compose_randomize (Deterministic n # ts) data =
     (case compose_randomize ts data of (ts', ws, e) \<Rightarrow> (Deterministic n # ts', ws, e))"
| "compose_randomize (Randomized n f s # ts) data =
     (case f data s of
        (s', None) \<Rightarrow>
          (case compose_randomize ts data of
             (ts', ws, e) \<Rightarrow> (Randomized n f s' # ts', ws, e))
      | (s', Some (TypeError type_error)) \<Rightarrow>
          (case compose_randomize ts data of
             (ts', ws, e) \<Rightarrow>
               (Randomized n f s' # ts', not_randomized_warning n type_error # ws, e))
      | (s', Some ex) \<Rightarrow> (Randomized n f s' # ts, [], Some ex))"

text \<open>
  What one member contributes to a call that runs to its end: its state after its own
  \<open>randomize\<close>, and the warning issued for it when its \<open>randomize\<close> raised \<open>TypeError\<close>.
\<close>

fun randomized_member :: "'d option \<Rightarrow> ('d, 's) zmember \<Rightarrow> ('d, 's) zmember" where
  "randomized_member data (Deterministic n) = Deterministic n"
| "randomized_member data (Randomized n f s) = Randomized n f (fst (f data s))"

fun member_warnings :: "'d option \<Rightarrow> ('d, 's) zmember \<Rightarrow> warning list" where
  "member_warnings data (Deterministic n) = []"
| "member_warnings data (Randomized n f s) =
     (case snd (f data s) of
        Some (TypeError type_error) \<Rightarrow> [not_randomized_warning n type_error]
      | _ \<Rightarrow> [])"

text \<open>A member raises nothing but \<open>TypeError\<close> on the argument.\<close>

fun at_most_TypeError :: "'d option \<Rightarrow> ('d, 's) zmember \<Rightarrow> bool" where
  "at_most_TypeError data (Deterministic n) = True"
| "at_most_TypeError data (Randomized n f s) =
     (case snd (f data s) of
        None \<Rightarrow> True
      | Some (TypeError type_error) \<Rightarrow> True
      | Some ex \<Rightarrow> False)"

text \<open>
  Members for the examples, with a counter as state: one whose \<open>randomize\<close> takes the
  argument and counts the call, one whose \<open>randomize()\<close> takes no argument and so rejects
  one.
\<close>

definition counting :: "(nat, nat) randomize_fn" where
  "counting data s = (Suc s, None)"

definition takes_no_data :: "(nat, nat) randomize_fn" where
  "takes_no_data data s =
     (s, Some (TypeError ''randomize() takes 1 positional argument but 2 were given''))"

section \<open>The trace protocol and OneOf\<close>

text \<open>
  A keyed record by value: its items in insertion order, and for every key the sequence of
  trace entries attached to the record under that key's reserved trace field (empty when
  nothing was traced). An entry carries the class identifier of the transform that pushed
  it, the identity of that transform, and its extra information: for \<open>OneOf\<close>, the index of
  the branch.
\<close>

record entry =
  class_name :: string
  ident :: nat
  extra_info :: "nat option"

record 'v krec =
  vals :: "(string \<times> 'v) list"
  traces :: "string \<Rightarrow> entry list"

text \<open>
  Modelled from the spec: \<open>push_transform\<close> and \<open>pop_transform\<close> belong to
  \<open>InvertibleTransform\<close> (\<open>monai.transforms.inverse_transform\<close>), which is missing from the
  sources. By section 6, \<open>push_transform(record, key, extra_info)\<close> appends a trace entry,
  and \<open>pop_transform(record, key)\<close> removes and returns the most recent entry for that key,
  failing if the top entry does not belong to the caller; by section 8, inverting a key
  with zero trace entries fails with a usage error. Section 6 names the caller's class
  identity; the scenario of section 8 (stages of one class, \<open>SpatialPadd\<close>, inverted out of
  order) and tests/test_inverse.py, lines 200-203 (a new instance of the class of the top
  entry must fail as well) need the entry to be the caller's own, so the class and the
  identity of the caller are both compared. The usage error is the \<open>RuntimeError\<close> the
  tests expect.
\<close>

definition push_transform :: "string \<Rightarrow> nat \<Rightarrow> 'v krec \<Rightarrow> string \<Rightarrow> nat option \<Rightarrow> 'v krec" where
  "push_transform cls i d key extra =
     d\<lparr>traces := (traces d)
          (key := traces d key @ [\<lparr>class_name = cls, ident = i, extra_info = extra\<rparr>])\<rparr>"

definition pop_transform ::
  "string \<Rightarrow> nat \<Rightarrow> 'v krec \<Rightarrow> string \<Rightarrow> exn + (entry \<times> 'v krec)"
where
  "pop_transform cls i d key =
     (if traces d key = [] then
        Inl (RuntimeError ''no transform has been applied to this key'')
      else if class_name (last (traces d key)) \<noteq> cls \<or> ident (last (traces d key)) \<noteq> i then
        Inl (RuntimeError ''the most recent transform of this key is not the one inverting'')
      else
        Inr (last (traces d key), d\<lparr>traces := (traces d)(key := butlast (traces d key))\<rparr>))"

text \<open>
  The invertible transforms of the test file (tests/test_one_of.py, lines 48-93):
  \<^verbatim>\<open>
    class Inv(MapBase, InvertibleTransform):
        def __call__(self, data):
            d = deepcopy(dict(data))
            for key in self.key_iterator(d):
                d[key] = self.fwd_fn(d[key])
                self.push_transform(d, key)
            return d

        def inverse(self, data):
            d = deepcopy(dict(data))
            for key in self.key_iterator(d):
                d[key] = self.inv_fn(d[key])
                self.pop_transform(d, key)
            return d
  \<close>
  with \<open>InvA\<close> adding and subtracting 1 and \<open>InvB\<close> adding and subtracting 100. The record
  is a value here, so the copy is the record itself.
  Modelled from the spec: \<open>MapTransform.key_iterator\<close> is missing from the sources; it
  yields the keys of the transform, each of which the record must hold (\<open>KeyError\<close>
  otherwise).
\<close>

record 'v inv_transform =
  inv_class :: string
  inv_id :: nat
  inv_keys :: "string list"
  fwd_fn :: "'v \<Rightarrow> 'v"
  inv_fn :: "'v \<Rightarrow> 'v"

fun inv_call_loop :: "'v inv_transform \<Rightarrow> string list \<Rightarrow> 'v krec \<Rightarrow> exn + 'v krec" where
  "inv_call_loop t [] d = Inr d"
| "inv_call_loop t (key # ks) d =
     (case map_of (vals d) key of
        None \<Rightarrow> Inl (KeyError key)
      | Some v \<Rightarrow>
          inv_call_loop t ks
            (push_transform (inv_class t) (inv_id t)
               (d\<lparr>vals := AList.update key (fwd_fn t v) (vals d)\<rparr>) key None))"

definition inv_call :: "'v inv_transform \<Rightarrow> 'v krec \<Rightarrow> exn + 'v krec" where
  "inv_call t data = inv_call_loop t (inv_keys t) data"

fun inv_inverse_loop :: "'v inv_transform \<Rightarrow> string list \<Rightarrow> 'v krec \<Rightarrow> exn + 'v krec" where
  "inv_inverse_loop t [] d = Inr d"
| "inv_inverse_loop t (key # ks) d =
     (case map_of (vals d) key of
        None \<Rightarrow> Inl (KeyError key)
      | Some v \<Rightarrow>
          (case pop_transform (inv_class t) (inv_id t)
                  (d\<lparr>vals := AList.update key (inv_fn t v) (vals d)\<rparr>) key of
             Inl e \<Rightarrow> Inl e
           | Inr (en, d') \<Rightarrow> inv_inverse_loop t ks d'))"

definition inv_inverse :: "'v inv_transform \<Rightarrow> 'v krec \<Rightarrow> exn + 'v krec" where
  "inv_inverse t data = inv_inverse_loop t (inv_keys t) data"

definition InvA :: "nat \<Rightarrow> string list \<Rightarrow> real inv_transform" where
  "InvA i keys = \<lparr>inv_class = ''InvA'', inv_id = i, inv_keys = keys,
                  fwd_fn = (\<lambda>x. x + 1), inv_fn = (\<lambda>x. x - 1)\<rparr>"

definition InvB :: "nat \<Rightarrow> string list \<Rightarrow> real inv_transform" where
  "InvB i keys = \<lparr>inv_class = ''InvB'', inv_id = i, inv_keys = keys,
                  fwd_fn = (\<lambda>x. x + 100), inv_fn = (\<lambda>x. x - 100)\<rparr>"

text \<open>
  Modelled from the spec: the class \<open>OneOf\<close> is missing from the sources. By section 4.3,
  applying it draws one index from the weights (here the argument \<open>index\<close>: the draw is
  numpy's), applies only the selected candidate, and on a keyed mapping records for every
  key a trace entry tagging this \<open>OneOf\<close> and the selected index; its inverse reads the last
  trace entry per key, does nothing for a key whose last entry this \<open>OneOf\<close> did not push,
  otherwise reads the recorded index and pops its own entry, and invokes \<open>inverse\<close> on the
  branch of that index, failing with a usage error if that branch is not invertible.
  A candidate is its call, and its inverse when it has one.
\<close>

record 'v candidate =
  cand_call :: "'v krec \<Rightarrow> exn + 'v krec"
  cand_inverse :: "('v krec \<Rightarrow> exn + 'v krec) option"

record 'v one_of =
  oo_id :: nat
  candidates :: "'v candidate list"

definition push_index :: "'v one_of \<Rightarrow> nat \<Rightarrow> string list \<Rightarrow> 'v krec \<Rightarrow> 'v krec" where
  "push_index self index ks d =
     fold (\<lambda>key d. push_transform ''OneOf'' (oo_id self) d key (Some index)) ks d"

definition oneof_call :: "'v one_of \<Rightarrow> nat \<Rightarrow> 'v krec \<Rightarrow> exn + 'v krec" where
  "oneof_call self index data =
     (if index < length (candidates self) then
        (case cand_call (candidates self ! index) data of
           Inl e \<Rightarrow> Inl e
         | Inr d \<Rightarrow> Inr (push_index self index (map fst (vals d)) d))
      else Inl (PyException ''IndexError''))"

definition owned :: "'v one_of \<Rightarrow> entry \<Rightarrow> bool" where
  "owned self e \<longleftrightarrow> class_name e = ''OneOf'' \<and> ident e = oo_id self"

fun pop_own ::
  "'v one_of \<Rightarrow> string list \<Rightarrow> 'v krec \<Rightarrow> nat option \<Rightarrow> exn + ('v krec \<times> nat option)"
where
  "pop_own self [] d index = Inr (d, index)"
| "pop_own self (key # ks) d index =
     (if traces d key \<noteq> [] \<and> owned self (last (traces d key)) then
        (case pop_transform ''OneOf'' (oo_id self) d key of
           Inl e \<Rightarrow> Inl e
         | Inr (en, d') \<Rightarrow> pop_own self ks d' (extra_info en))
      else pop_own self ks d index)"

definition oneof_inverse :: "'v one_of \<Rightarrow> 'v krec \<Rightarrow> exn + 'v krec" where
  "oneof_inverse self data =
     (case pop_own self (map fst (vals data)) data None of
        Inl e \<Rightarrow> Inl e
      | Inr (d, None) \<Rightarrow> Inr data
      | Inr (d, Some index) \<Rightarrow>
          (if index < length (candidates self) then
             (case cand_inverse (candidates self ! index) of
                None \<Rightarrow> Inl (RuntimeError ''the selected transform is not invertible'')
              | Some inverse_fn \<Rightarrow> inverse_fn d)
           else Inl (PyException ''IndexError'')))"

text \<open>
  The scenario of tests/test_one_of.py, lines 98-100 and 143:
  \<open>OneOf((InvA(KEYS), InvB(KEYS)))\<close> with \<open>KEYS = ["x", "y"]\<close>, applied to
  \<open>{"x": 10.0, "y": 20.0}\<close>.
\<close>

definition as_candidate :: "'v inv_transform \<Rightarrow> 'v candidate" where
  "as_candidate t = \<lparr>cand_call = inv_call t, cand_inverse = Some (inv_inverse t)\<rparr>"

definition KEYS :: "string list" where
  "KEYS = [''x'', ''y'']"

definition scenario :: "real one_of" where
  "scenario = \<lparr>oo_id = 0, candidates = [as_candidate (InvA 1 KEYS), as_candidate (InvB 2 KEYS)]\<rparr>"

definition data0 :: "real krec" where
  "data0 = \<lparr>vals = [(''x'', 10), (''y'', 20)], traces = (\<lambda>key. [])\<rparr>"

section \<open>Properties of application\<close>

lemma chain_Cons:
  "chain ap (t # ts) (x # xs) \<longleftrightarrow>
     (\<exists>y zs. xs = y # zs \<and> ap t x = Inr y \<and> chain ap ts (y # zs))"
  by (cases xs) simp_all

lemma compose_call_chain:
  "compose_call ap ts x = Inr y \<longleftrightarrow> (\<exists>xs. chain ap ts (x # xs) \<and> last (x # xs) = y)"
proof (induction ts arbitrary: x)
  case Nil
  show ?case by auto
next
  case (Cons t ts)
  show ?case
  proof (cases "ap t x")
    case (Inl e)
    have "\<not> (\<exists>xs. chain ap (t # ts) (x # xs) \<and> last (x # xs) = y)"
      using Inl by (simp only: chain_Cons) simp
    then show ?thesis using Inl by simp
  next
    case (Inr out)
    have "(\<exists>xs. chain ap (t # ts) (x # xs) \<and> last (x # xs) = y)
        \<longleftrightarrow> (\<exists>zs. chain ap ts (out # zs) \<and> last (out # zs) = y)"
    proof
      assume "\<exists>xs. chain ap (t # ts) (x # xs) \<and> last (x # xs) = y"
      then obtain xs where c: "chain ap (t # ts) (x # xs)" and l: "last (x # xs) = y"
        by blast
      from c obtain y' zs where xs: "xs = y' # zs" and st: "ap t x = Inr y'"
        and rest: "chain ap ts (y' # zs)"
        unfolding chain_Cons by blast
      have "y' = out" using st Inr by simp
      then have "chain ap ts (out # zs) \<and> last (out # zs) = y"
        using rest l xs by simp
      then show "\<exists>zs. chain ap ts (out # zs) \<and> last (out # zs) = y" by blast
    next
      assume "\<exists>zs. chain ap ts (out # zs) \<and> last (out # zs) = y"
      then obtain zs where c: "chain ap ts (out # zs)" and l: "last (out # zs) = y"
        by blast
      have "chain ap (t # ts) (x # out # zs)" using c Inr by simp
      moreover have "last (x # out # zs) = y" using l by simp
      ultimately show "\<exists>xs. chain ap (t # ts) (x # xs) \<and> last (x # xs) = y" by blast
    qed
    then show ?thesis using Inr Cons.IH [of out] by simp
  qed
qed

lemma chain_length: "chain ap ts xs \<Longrightarrow> length xs = Suc (length ts)"
proof (induction ts arbitrary: xs)
  case Nil
  then show ?case by simp
next
  case (Cons t ts)
  then obtain x y zs where xs: "xs = x # y # zs" and rest: "chain ap ts (y # zs)"
    by (auto split: list.splits)
  from Cons.IH [OF rest] show ?case using xs by simp
qed

lemma chain_nth:
  "chain ap ts xs \<Longrightarrow> i < length ts \<Longrightarrow> ap (ts ! i) (xs ! i) = Inr (xs ! Suc i)"
proof (induction ts arbitrary: xs i)
  case Nil
  then show ?case by simp
next
  case (Cons t ts)
  then obtain x y zs where xs: "xs = x # y # zs" and st: "ap t x = Inr y"
    and rest: "chain ap ts (y # zs)"
    by (auto split: list.splits)
  show ?case
  proof (cases i)
    case 0
    then show ?thesis using xs st by simp
  next
    case (Suc j)
    then have "j < length ts" using Cons.prems(2) by simp
    from Cons.IH [OF rest this] show ?thesis using xs Suc by simp
  qed
qed

lemma compose_call_error:
  "compose_call ap ts x = Inl e \<longleftrightarrow>
     (\<exists>k < length ts. \<exists>y. compose_call ap (take k ts) x = Inr y \<and> ap (ts ! k) y = Inl e)"
proof (induction ts arbitrary: x)
  case Nil
  show ?case by simp
next
  case (Cons t ts)
  show ?case
  proof (cases "ap t x")
    case (Inl e')
    show ?thesis
    proof
      assume "compose_call ap (t # ts) x = Inl e"
      then have "e' = e" using Inl by simp
      then have "compose_call ap (take 0 (t # ts)) x = Inr x \<and> ap ((t # ts) ! 0) x = Inl e"
        using Inl by simp
      moreover have "0 < length (t # ts)" by simp
      ultimately show "\<exists>k < length (t # ts). \<exists>y. compose_call ap (take k (t # ts)) x = Inr y
          \<and> ap ((t # ts) ! k) y = Inl e"
        by blast
    next
      assume "\<exists>k < length (t # ts). \<exists>y. compose_call ap (take k (t # ts)) x = Inr y
          \<and> ap ((t # ts) ! k) y = Inl e"
      then obtain k y where k: "k < length (t # ts)"
        and y: "compose_call ap (take k (t # ts)) x = Inr y" and e: "ap ((t # ts) ! k) y = Inl e"
        by blast
      have "k = 0"
      proof (rule ccontr)
        assume "k \<noteq> 0"
        then obtain j where "k = Suc j" by (cases k) auto
        then show False using y Inl by simp
      qed
      then show "compose_call ap (t # ts) x = Inl e" using y e Inl by simp
    qed
  next
    case (Inr out)
    have "(\<exists>k < length (t # ts). \<exists>y. compose_call ap (take k (t # ts)) x = Inr y
          \<and> ap ((t # ts) ! k) y = Inl e)
       \<longleftrightarrow> (\<exists>j < length ts. \<exists>y. compose_call ap (take j ts) out = Inr y \<and> ap (ts ! j) y = Inl e)"
      (is "?L \<longleftrightarrow> ?R")
    proof
      assume ?L
      then obtain k y where k: "k < length (t # ts)"
        and y: "compose_call ap (take k (t # ts)) x = Inr y" and e: "ap ((t # ts) ! k) y = Inl e"
        by blast
      have "k \<noteq> 0" using y e Inr by (cases k) auto
      then obtain j where kj: "k = Suc j" by (cases k) auto
      then show ?R using k y e Inr by auto
    next
      assume ?R
      then obtain j y where "j < length ts" "compose_call ap (take j ts) out = Inr y"
        "ap (ts ! j) y = Inl e" by blast
      then have "Suc j < length (t # ts) \<and> compose_call ap (take (Suc j) (t # ts)) x = Inr y
          \<and> ap ((t # ts) ! Suc j) y = Inl e"
        using Inr by simp
      then show ?L by blast
    qed
    then show ?thesis using Inr Cons.IH [of out] by simp
  qed
qed

text \<open>
  C8. Compose applies its members strictly in sequence order: a run returns \<open>y\<close> exactly
  when there are intermediate values, one per step, each the output of that step on the
  value before it, the first the input and the last \<open>y\<close>; a run fails exactly with the
  exception of the first failing step, the steps before it having been applied in order
  (nothing is retried or skipped); and \<open>Compose([A(), B(), C()])\<close> applied to \<open>1.0\<close> yields
  \<open>7.0\<close>.
\<close>

theorem compose_call_in_order:
  "(compose_call ap ts x = Inr y \<longleftrightarrow>
      (\<exists>xs. length xs = Suc (length ts) \<and> xs ! 0 = x \<and> last xs = y \<and>
            (\<forall>i. i < length ts \<longrightarrow> ap (ts ! i) (xs ! i) = Inr (xs ! Suc i))))
   \<and> (compose_call ap ts x = Inl e \<longleftrightarrow>
      (\<exists>k < length ts. \<exists>z. compose_call ap (take k ts) x = Inr z \<and> ap (ts ! k) z = Inl e))
   \<and> compose_call apply_scalar [A, B, C] 1 = Inr 7"
proof (intro conjI)
  show "compose_call ap ts x = Inr y \<longleftrightarrow>
      (\<exists>xs. length xs = Suc (length ts) \<and> xs ! 0 = x \<and> last xs = y \<and>
            (\<forall>i. i < length ts \<longrightarrow> ap (ts ! i) (xs ! i) = Inr (xs ! Suc i)))"
  proof
    assume "compose_call ap ts x = Inr y"
    then obtain xs where c: "chain ap ts (x # xs)" and l: "last (x # xs) = y"
      using compose_call_chain [of ap ts x y] by blast
    have "length (x # xs) = Suc (length ts)" using chain_length [OF c] .
    moreover have "\<forall>i. i < length ts \<longrightarrow> ap (ts ! i) ((x # xs) ! i) = Inr ((x # xs) ! Suc i)"
      using chain_nth [OF c] by blast
    ultimately show "\<exists>xs. length xs = Suc (length ts) \<and> xs ! 0 = x \<and> last xs = y \<and>
            (\<forall>i. i < length ts \<longrightarrow> ap (ts ! i) (xs ! i) = Inr (xs ! Suc i))"
      using l by (intro exI [of _ "x # xs"]) simp
  next
    assume "\<exists>xs. length xs = Suc (length ts) \<and> xs ! 0 = x \<and> last xs = y \<and>
            (\<forall>i. i < length ts \<longrightarrow> ap (ts ! i) (xs ! i) = Inr (xs ! Suc i))"
    then obtain xs where len: "length xs = Suc (length ts)" and x0: "xs ! 0 = x"
      and l: "last xs = y"
      and st: "\<forall>i. i < length ts \<longrightarrow> ap (ts ! i) (xs ! i) = Inr (xs ! Suc i)"
      by blast
    have "length xs = Suc (length ts) \<Longrightarrow>
        \<forall>i. i < length ts \<longrightarrow> ap (ts ! i) (xs ! i) = Inr (xs ! Suc i) \<Longrightarrow>
        compose_call ap ts (xs ! 0) = Inr (last xs)" for xs
    proof (induction ts arbitrary: xs)
      case Nil
      then show ?case by (cases xs) auto
    next
      case (Cons t ts)
      then obtain a b cs where xs: "xs = a # b # cs"
        by (cases xs; cases "tl xs") auto
      have s0: "ap t a = Inr b" using Cons.prems(2) xs by force
      have "\<forall>i. i < length ts \<longrightarrow> ap (ts ! i) ((b # cs) ! i) = Inr ((b # cs) ! Suc i)"
      proof (intro allI impI)
        fix i assume "i < length ts"
        then have "Suc i < length (t # ts)" by simp
        then have "ap ((t # ts) ! Suc i) (xs ! Suc i) = Inr (xs ! Suc (Suc i))"
          using Cons.prems(2) by blast
        then show "ap (ts ! i) ((b # cs) ! i) = Inr ((b # cs) ! Suc i)" using xs by simp
      qed
      moreover have "length (b # cs) = Suc (length ts)" using Cons.prems(1) xs by simp
      ultimately have "compose_call ap ts ((b # cs) ! 0) = Inr (last (b # cs))"
        using Cons.IH by blast
      then show ?case using xs s0 by simp
    qed
    from this [OF len st] show "compose_call ap ts x = Inr y" using x0 l by simp
  qed
next
  show "compose_call ap ts x = Inl e \<longleftrightarrow>
      (\<exists>k < length ts. \<exists>z. compose_call ap (take k ts) x = Inr z \<and> ap (ts ! k) z = Inl e)"
    by (rule compose_call_error)
next
  show "compose_call apply_scalar [A, B, C] 1 = Inr 7"
    by (simp add: apply_scalar_def)
qed

theorem compose_call_in_order_witness:
  "compose_call apply_scalar [A, B, C] 1 = Inr 7 \<and>
   (\<exists>xs. length xs = 4 \<and> xs ! 0 = 1 \<and> last xs = 7 \<and>
      apply_scalar A (xs ! 0) = Inr (xs ! 1) \<and>
      apply_scalar B (xs ! 1) = Inr (xs ! 2) \<and>
      apply_scalar C (xs ! 2) = Inr (xs ! 3))"
proof -
  note th = compose_call_in_order [of apply_scalar "[A, B, C]" 1 7]
  have run: "compose_call apply_scalar [A, B, C] 1 = Inr 7" using th by blast
  then obtain xs where len: "length xs = Suc (length [A, B, C])" and x0: "xs ! 0 = 1"
    and l: "last xs = 7"
    and st: "\<forall>i. i < length [A, B, C] \<longrightarrow> apply_scalar ([A, B, C] ! i) (xs ! i) = Inr (xs ! Suc i)"
    using th by blast
  have "apply_scalar A (xs ! 0) = Inr (xs ! 1)" using st [rule_format, of 0] by simp
  moreover have "apply_scalar B (xs ! 1) = Inr (xs ! 2)" using st [rule_format, of 1] by (simp add: numeral_2_eq_2)
  moreover have "apply_scalar C (xs ! 2) = Inr (xs ! 3)"
    using st [rule_format, of 2] by (simp add: numeral_2_eq_2 numeral_3_eq_3)
  moreover have "length xs = 4" using len by simp
  ultimately show ?thesis using run x0 l by blast
qed

section \<open>Properties of length\<close>

lemma len_term_leaves: "len_term t = length (leaves t)"
  by (induction t) (simp_all add: length_concat comp_def cong: map_cong)

text \<open>The assertion of tests/test_one_of.py, line 124: \<open>len(p) = 5\<close>.\<close>

lemma compose_len_test: "compose_len (members p) = 5"
  by (simp add: compose_len_def p_def p1_def p2_def)

text \<open>
  C5 (as amended). For every Compose, \<open>len\<close> is the flattened count: nested \<open>Compose\<close>
  members are counted recursively, and a nested \<open>OneOf\<close>, being a \<open>Compose\<close> too, is
  unrolled in the same way (it does not count as one element).
\<close>

theorem compose_len_flattened:
  "compose_len ts = length (concat (map leaves ts))"
proof -
  have "len_term = (\<lambda>t. length (leaves t))"
    by (rule ext) (rule len_term_leaves)
  then show ?thesis
    by (simp add: compose_len_def length_concat comp_def)
qed

text \<open>
  The claim as stated fails: a Compose whose only member is the \<open>OneOf\<close> of the test
  file has length 5, not 1.
\<close>

theorem compose_len_one_of_counterexample:
  "isinstance_Compose p \<and> compose_len [p] = 5 \<and> compose_len [p] \<noteq> length [p]"
  by (simp add: compose_len_def p_def p1_def p2_def)

section \<open>Properties of inversion\<close>

lemma inverse_loop_filter:
  "inverse_loop ts h d keys =
     run_inverses (map inverse_of (filter isinstance_InvertibleTransform ts)) h d keys"
proof (induction ts arbitrary: h d)
  case Nil
  show ?case by simp
next
  case (Cons t ts)
  show ?case
  proof (cases "isinstance_InvertibleTransform t")
    case True
    then show ?thesis using Cons.IH by (simp split: prod.splits sum.splits)
  next
    case False
    then show ?thesis using Cons.IH by simp
  qed
qed

text \<open>
  C4. For a mapping, \<open>Compose.inverse\<close> copies it and then runs, on the copy, the
  inverses of exactly the members that are instances of \<open>InvertibleTransform\<close>, in the
  reverse of the sequence order, each on the store and the dictionary the one before left;
  the other members are passed over without any effect.
\<close>

theorem compose_inverse_reverse_order:
  "compose_inverse ts h (Mapping m) keys =
     (let (h1, c) = dict_copy h m;
          (h2, d) = deepcopy h1 c
      in run_inverses (map inverse_of (rev (filter isinstance_InvertibleTransform ts)))
           h2 d (truthy_keys keys))"
  by (simp add: compose_inverse_def inverse_loop_filter rev_filter split: prod.splits)

lemma run_inverses_error:
  "run_inverses fs h d keys = (h', Inl e) \<Longrightarrow>
     \<exists>f h1 d1. f \<in> set fs \<and> f h1 d1 keys = (h', Inl e)"
proof (induction fs arbitrary: h d)
  case Nil
  then show ?case by simp
next
  case (Cons f fs)
  obtain h1 r where fr: "f h d keys = (h1, r)" by (cases "f h d keys")
  show ?case
  proof (cases r)
    case (Inl e')
    then have "f h d keys = (h', Inl e)" using Cons.prems fr by simp
    then show ?thesis by auto
  next
    case (Inr d1)
    then have "run_inverses fs h1 d1 keys = (h', Inl e)" using Cons.prems fr by simp
    from Cons.IH [OF this] show ?thesis by auto
  qed
qed

text \<open>
  C6. On an input that is not a mapping, \<open>Compose.inverse\<close> raises the RuntimeError at
  once: the store is as it was, whatever the members are. On a mapping the check does not
  fire: an exception the call ends with is one that the \<open>inverse\<close> of a member raised.
\<close>

theorem compose_inverse_non_mapping:
  "compose_inverse ts h (NonMapping x) keys =
     (h, Inl (RuntimeError ''Inverse method only available for dictionary transforms''))
   \<and> (compose_inverse ts h (Mapping m) keys = (h', Inl e) \<longrightarrow>
       (\<exists>n f h1 d1. Invertible n f \<in> set ts \<and> f h1 d1 (truthy_keys keys) = (h', Inl e)))"
proof
  show "compose_inverse ts h (NonMapping x) keys =
     (h, Inl (RuntimeError ''Inverse method only available for dictionary transforms''))"
    by (simp add: compose_inverse_def)
next
  show "compose_inverse ts h (Mapping m) keys = (h', Inl e) \<longrightarrow>
       (\<exists>n f h1 d1. Invertible n f \<in> set ts \<and> f h1 d1 (truthy_keys keys) = (h', Inl e))"
  proof
    assume a: "compose_inverse ts h (Mapping m) keys = (h', Inl e)"
    obtain h1 c where dc: "dict_copy h m = (h1, c)" by (cases "dict_copy h m")
    obtain h2 d where dd: "deepcopy h1 c = (h2, d)" by (cases "deepcopy h1 c")
    have "run_inverses (map inverse_of (filter isinstance_InvertibleTransform (rev ts)))
            h2 d (truthy_keys keys) = (h', Inl e)"
      using a dc dd by (simp add: compose_inverse_def inverse_loop_filter)
    from run_inverses_error [OF this]
    obtain f h3 d3 where fin: "f \<in> set (map inverse_of (filter isinstance_InvertibleTransform (rev ts)))"
      and fe: "f h3 d3 (truthy_keys keys) = (h', Inl e)" by blast
    from fin obtain t where t: "t \<in> set ts" "isinstance_InvertibleTransform t" "f = inverse_of t"
      by auto
    from t(2,3) obtain n where "t = Invertible n f" by (cases t) auto
    then show "\<exists>n f h1 d1. Invertible n f \<in> set ts \<and> f h1 d1 (truthy_keys keys) = (h', Inl e)"
      using t fe by blast
  qed
qed


theorem compose_inverse_non_mapping_witness:
  "compose_inverse [Invertible ''Bad'' always_raises] h0 (NonMapping (0::nat)) None =
     (h0, Inl (RuntimeError ''Inverse method only available for dictionary transforms''))
   \<and> (\<exists>h'. compose_inverse [Invertible ''Bad'' always_raises] h0 (Mapping 0 :: nat pyobj) None
           = (h', Inl (KeyError ''x''))
        \<and> (\<exists>n f h1 d1. Invertible n f \<in> set [Invertible ''Bad'' always_raises]
              \<and> f h1 d1 (truthy_keys None) = (h', Inl (KeyError ''x''))))"
proof -
  obtain h' r where run: "compose_inverse [Invertible ''Bad'' always_raises] h0 (Mapping 0 :: nat pyobj) None
      = (h', r)"
    by (cases "compose_inverse [Invertible ''Bad'' always_raises] h0 (Mapping 0 :: nat pyobj) None")
  have r: "r = Inl (KeyError ''x'')"
    using run by (simp add: compose_inverse_def always_raises_def split: prod.splits)
  note th = compose_inverse_non_mapping [of "[Invertible ''Bad'' always_raises]" h0 "0::nat"
      None 0 h' "KeyError ''x''"]
  show ?thesis using th run r by blast
qed

lemma copy_items_frame:
  "copy_items h memo kvs = (h', kvs') \<Longrightarrow>
     nxt h \<le> nxt h' \<and> dicts h' = dicts h \<and> (\<forall>a. a < nxt h \<longrightarrow> cells h' a = cells h a)"
proof (induction kvs arbitrary: h memo h' kvs')
  case Nil
  then show ?case by simp
next
  case (Cons kv kvs)
  obtain k a where kv: "kv = (k, a)" by (cases kv)
  show ?case
  proof (cases "map_of memo a")
    case (Some a')
    obtain h2 r where rec: "copy_items h memo kvs = (h2, r)" by (cases "copy_items h memo kvs")
    then have "h' = h2" using Cons.prems kv Some by simp
    then show ?thesis using Cons.IH [OF rec] by simp
  next
    case None
    define h1 where "h1 = h\<lparr>cells := (cells h)(nxt h := cells h a), nxt := Suc (nxt h)\<rparr>"
    obtain h2 r where rec: "copy_items h1 ((a, nxt h) # memo) kvs = (h2, r)"
      by (cases "copy_items h1 ((a, nxt h) # memo) kvs")
    then have "h' = h2" using Cons.prems kv None by (simp add: h1_def Let_def)
    moreover have "nxt h1 \<le> nxt h2 \<and> dicts h2 = dicts h1
         \<and> (\<forall>a. a < nxt h1 \<longrightarrow> cells h2 a = cells h1 a)"
      using Cons.IH [OF rec] .
    ultimately show ?thesis by (simp add: h1_def)
  qed
qed

lemma copy_items_fresh:
  "copy_items h memo kvs = (h', kvs') \<Longrightarrow> lo \<le> nxt h \<Longrightarrow>
     (\<forall>a a'. map_of memo a = Some a' \<longrightarrow> lo \<le> a') \<Longrightarrow>
     (\<forall>c. c \<in> snd ` set kvs' \<longrightarrow> lo \<le> c)"
proof (induction kvs arbitrary: h memo h' kvs')
  case Nil
  then show ?case by simp
next
  case (Cons kv kvs)
  obtain k a where kv: "kv = (k, a)" by (cases kv)
  show ?case
  proof (cases "map_of memo a")
    case (Some a')
    obtain h2 r where rec: "copy_items h memo kvs = (h2, r)" by (cases "copy_items h memo kvs")
    then have kvs': "kvs' = (k, a') # r" using Cons.prems(1) kv Some by simp
    have "lo \<le> a'" using Cons.prems(3) Some by blast
    moreover have "\<forall>c. c \<in> snd ` set r \<longrightarrow> lo \<le> c"
      using Cons.IH [OF rec Cons.prems(2) Cons.prems(3)] .
    ultimately show ?thesis using kvs' by auto
  next
    case None
    define h1 where "h1 = h\<lparr>cells := (cells h)(nxt h := cells h a), nxt := Suc (nxt h)\<rparr>"
    obtain h2 r where rec: "copy_items h1 ((a, nxt h) # memo) kvs = (h2, r)"
      by (cases "copy_items h1 ((a, nxt h) # memo) kvs")
    then have kvs': "kvs' = (k, nxt h) # r"
      using Cons.prems(1) kv None by (simp add: h1_def Let_def)
    have b1: "lo \<le> nxt h1" using Cons.prems(2) by (simp add: h1_def)
    have m1: "\<forall>x x'. map_of ((a, nxt h) # memo) x = Some x' \<longrightarrow> lo \<le> x'"
      using Cons.prems(2,3) by auto
    have "\<forall>c. c \<in> snd ` set r \<longrightarrow> lo \<le> c"
      using Cons.IH [OF rec b1 m1] .
    then show ?thesis using kvs' Cons.prems(2) by auto
  qed
qed

lemma dict_copy_frame:
  "dict_copy h m = (h1, c) \<Longrightarrow>
     nxt h1 = Suc (nxt h) \<and> c = nxt h \<and> cells h1 = cells h \<and>
     (\<forall>a. a < nxt h \<longrightarrow> dicts h1 a = dicts h a)"
  by (auto simp: dict_copy_def)

lemma deepcopy_frame:
  assumes "deepcopy h c = (h2, d)"
  shows "nxt h \<le> d" and "nxt h \<le> nxt h2"
    and "\<forall>a. a < nxt h \<longrightarrow> dicts h2 a = dicts h a \<and> cells h2 a = cells h a"
    and "\<forall>x. x \<in> cells_of h2 d \<longrightarrow> nxt h \<le> x"
proof -
  obtain h1 kvs where ci: "copy_items h [] (items h c) = (h1, kvs)"
    by (cases "copy_items h [] (items h c)")
  have h2: "h2 = h1\<lparr>dicts := (dicts h1)(nxt h1 := Some kvs), nxt := Suc (nxt h1)\<rparr>"
    and d: "d = nxt h1"
    using assms ci by (auto simp: deepcopy_def)
  have fr: "nxt h \<le> nxt h1 \<and> dicts h1 = dicts h \<and> (\<forall>a. a < nxt h \<longrightarrow> cells h1 a = cells h a)"
    using copy_items_frame [OF ci] .
  have fresh: "\<forall>x. x \<in> snd ` set kvs \<longrightarrow> nxt h \<le> x"
    using copy_items_fresh [OF ci, of "nxt h"] by simp
  show "nxt h \<le> d" using d fr by simp
  show "nxt h \<le> nxt h2" using h2 fr by simp
  show "\<forall>a. a < nxt h \<longrightarrow> dicts h2 a = dicts h a \<and> cells h2 a = cells h a"
    using h2 fr by auto
  show "\<forall>x. x \<in> cells_of h2 d \<longrightarrow> nxt h \<le> x"
    using fresh h2 d by (simp add: cells_of_def items_def)
qed

lemma inverse_loop_frame:
  "inverse_loop ts h d keys = (h', r) \<Longrightarrow>
   (\<forall>n f. Invertible n f \<in> set ts \<longrightarrow> confined f) \<Longrightarrow>
   lo \<le> nxt h \<Longrightarrow> lo \<le> d \<Longrightarrow> (\<forall>c. c \<in> cells_of h d \<longrightarrow> lo \<le> c) \<Longrightarrow>
   (\<forall>a. a < lo \<longrightarrow> dicts h' a = dicts h a \<and> cells h' a = cells h a)"
proof (induction ts arbitrary: h d)
  case Nil
  then show ?case by simp
next
  case (Cons t ts)
  have conf: "\<forall>n f. Invertible n f \<in> set ts \<longrightarrow> confined f" using Cons.prems(2) by simp
  show ?case
  proof (cases t)
    case (ForwardOnly n)
    then have "inverse_loop ts h d keys = (h', r)" using Cons.prems(1) by simp
    from Cons.IH [OF this conf Cons.prems(3,4,5)] show ?thesis .
  next
    case (Invertible n f)
    then have cf: "confined f" using Cons.prems(2) by simp
    obtain h1 r1 where fr: "f h d keys = (h1, r1)" by (cases "f h d keys")
    have c1: "nxt h \<le> nxt h1"
      and c2: "\<forall>a. a < nxt h \<and> a \<noteq> d \<longrightarrow> dicts h1 a = dicts h a"
      and c3: "\<forall>c. c < nxt h \<and> c \<notin> cells_of h d \<longrightarrow> cells h1 c = cells h c"
      using cf [unfolded confined_def, rule_format, of h d keys] fr by simp_all
    have step: "\<forall>a. a < lo \<longrightarrow> dicts h1 a = dicts h a \<and> cells h1 a = cells h a"
    proof (intro allI impI)
      fix a assume a: "a < lo"
      have "a < nxt h" "a \<noteq> d" using a Cons.prems(3,4) by simp_all
      moreover have "a \<notin> cells_of h d" using a Cons.prems(5) by auto
      ultimately show "dicts h1 a = dicts h a \<and> cells h1 a = cells h a"
        using c2 c3 by blast
    qed
    show ?thesis
    proof (cases r1)
      case (Inl e)
      then have "h' = h1" using Cons.prems(1) Invertible fr by simp
      then show ?thesis using step by simp
    next
      case (Inr d1)
      have c4: "(d1 = d \<or> nxt h \<le> d1)
          \<and> (\<forall>c. c \<in> cells_of h1 d1 \<longrightarrow> c \<in> cells_of h d \<or> nxt h \<le> c)"
        using cf [unfolded confined_def, rule_format, of h d keys] fr Inr by simp
      have rec: "inverse_loop ts h1 d1 keys = (h', r)"
        using Cons.prems(1) Invertible fr Inr by simp
      have b1: "lo \<le> nxt h1" using c1 Cons.prems(3) by simp
      have b2: "lo \<le> d1" using c4 Cons.prems(3,4) by auto
      have b3: "\<forall>c. c \<in> cells_of h1 d1 \<longrightarrow> lo \<le> c"
        using c4 Cons.prems(3,5) by (meson le_trans)
      from Cons.IH [OF rec conf b1 b2 b3] step show ?thesis by simp
    qed
  qed
qed

text \<open>
  C7. \<open>Compose.inverse(d)\<close> leaves \<open>d\<close> unchanged: when the inverses of the members keep
  to what they are handed and to what they allocate, the dictionary \<open>d\<close> and its value
  objects (indeed every object allocated before the call) are the same in the store after
  the call, whether it returns or raises.
\<close>

theorem compose_inverse_frame:
  assumes "\<forall>n f. Invertible n f \<in> set ts \<longrightarrow> confined f"
    and "allocated h m"
    and "compose_inverse ts h (Mapping m) keys = (h', r)"
  shows "dicts h' m = dicts h m \<and> (\<forall>c. c \<in> cells_of h m \<longrightarrow> cells h' c = cells h c)
     \<and> (\<forall>a. a < nxt h \<longrightarrow> dicts h' a = dicts h a \<and> cells h' a = cells h a)"
proof -
  obtain h1 c where dc: "dict_copy h m = (h1, c)" by (cases "dict_copy h m")
  obtain h2 d where dd: "deepcopy h1 c = (h2, d)" by (cases "deepcopy h1 c")
  have loop: "inverse_loop (rev ts) h2 d (truthy_keys keys) = (h', r)"
    using assms(3) dc dd by (simp add: compose_inverse_def)
  have conf: "\<forall>n f. Invertible n f \<in> set (rev ts) \<longrightarrow> confined f" using assms(1) by simp
  note f1 = dict_copy_frame [OF dc]
  note f2 = deepcopy_frame [OF dd]
  have "nxt h \<le> nxt h2" using f1 f2(2) by simp
  moreover have "nxt h \<le> d" using f1 f2(1) by simp
  moreover have "\<forall>x. x \<in> cells_of h2 d \<longrightarrow> nxt h \<le> x"
  proof (intro allI impI)
    fix x assume "x \<in> cells_of h2 d"
    then have "nxt h1 \<le> x" using f2(4) by blast
    then show "nxt h \<le> x" using f1 by simp
  qed
  ultimately have "\<forall>a. a < nxt h \<longrightarrow> dicts h' a = dicts h2 a \<and> cells h' a = cells h2 a"
    using inverse_loop_frame [OF loop conf] by blast
  then have all: "\<forall>a. a < nxt h \<longrightarrow> dicts h' a = dicts h a \<and> cells h' a = cells h a"
    using f1 f2(3) by (metis less_Suc_eq)
  then show ?thesis using assms(2) by (simp add: allocated_def)
qed


lemma confined_negate_in_place: "confined negate_in_place"
  by (simp add: confined_def negate_in_place_def cells_of_def items_def)

text \<open>
  Handed the caller's dictionary itself, the in-place member does change the caller's array:
  the copy is what protects it.
\<close>

lemma negate_in_place_mutates:
  "cells (fst (negate_in_place h0 0 None)) 1 = Some (- 10)"
  by (simp add: negate_in_place_def h0_def cells_of_def items_def)

theorem compose_inverse_frame_witness:
  "confined negate_in_place \<and> allocated h0 0 \<and>
   (\<exists>h'. compose_inverse [Invertible ''Neg'' negate_in_place] h0 (Mapping 0 :: nat pyobj) None = (h', Inr 4)
      \<and> cells h' 3 = Some (- 10)
      \<and> dicts h' 0 = dicts h0 0 \<and> cells h' 1 = Some 10)"
proof -
  have al: "allocated h0 0"
    by (simp add: allocated_def h0_def cells_of_def items_def)
  have conf: "\<forall>n f. Invertible n f \<in> set [Invertible ''Neg'' negate_in_place] \<longrightarrow> confined f"
    using confined_negate_in_place by simp
  obtain h' r where run: "compose_inverse [Invertible ''Neg'' negate_in_place] h0 (Mapping 0 :: nat pyobj) None
      = (h', r)"
    by (cases "compose_inverse [Invertible ''Neg'' negate_in_place] h0 (Mapping 0 :: nat pyobj) None")
  have r: "r = Inr 4 \<and> cells h' 3 = Some (- 10)"
    using run
    by (auto simp: compose_inverse_def dict_copy_def deepcopy_def negate_in_place_def
        cells_of_def items_def h0_def truthy_keys_def Let_def)
  from compose_inverse_frame [OF conf al run]
  have "dicts h' 0 = dicts h0 0 \<and> (\<forall>c. c \<in> cells_of h0 0 \<longrightarrow> cells h' c = cells h0 c)"
    by blast
  moreover have "1 \<in> cells_of h0 0" by (simp add: cells_of_def items_def h0_def)
  ultimately have "dicts h' 0 = dicts h0 0 \<and> cells h' 1 = Some 10"
    by (auto simp: h0_def)
  then show ?thesis using confined_negate_in_place al run r by blast
qed

section \<open>Properties of seeding\<close>

lemma seed_members_Cons:
  "seed_members E R (t # ts) =
     (if \<not> isinstance_Randomizable t
      then (fst (seed_members E R ts), t # snd (seed_members E R ts))
      else (fst (seed_members E (snd (randint E (MAX_SEED E) R)) ts),
            member_set_random_state E (fst (randint E (MAX_SEED E) R)) t
              # snd (seed_members E (snd (randint E (MAX_SEED E) R)) ts)))"
  by (simp split: prod.splits)

lemma child_seeds_Cons:
  "child_seeds E R (t # ts) =
     (if \<not> isinstance_Randomizable t then child_seeds E R ts
      else fst (randint E (MAX_SEED E) R) # child_seeds E (snd (randint E (MAX_SEED E) R)) ts)"
  by (simp split: prod.splits)

lemma seed_members_length: "length (snd (seed_members E R ts)) = length ts"
proof (induction ts arbitrary: R)
  case Nil
  show ?case by simp
next
  case (Cons t ts)
  show ?case by (simp only: seed_members_Cons) (simp add: Cons.IH)
qed

lemma seed_members_fst:
  "fst (seed_members E R ts) = advance E R (length (filter isinstance_Randomizable ts))"
proof (induction ts arbitrary: R)
  case Nil
  show ?case by simp
next
  case (Cons t ts)
  show ?case by (simp only: seed_members_Cons) (simp add: Cons.IH)
qed

lemma nth_draw_0: "nth_draw E R 0 = fst (randint E (MAX_SEED E) R)"
  by (simp add: nth_draw_def)

lemma nth_draw_Suc: "nth_draw E R (Suc k) = nth_draw E (snd (randint E (MAX_SEED E) R)) k"
  by (simp add: nth_draw_def)

lemma child_seeds_draws:
  "child_seeds E R ts = map (nth_draw E R) [0..<length (filter isinstance_Randomizable ts)]"
proof (induction ts arbitrary: R)
  case Nil
  show ?case by simp
next
  case (Cons t ts)
  show ?case
  proof (cases "isinstance_Randomizable t")
    case False
    then show ?thesis by (simp only: child_seeds_Cons) (simp add: Cons.IH)
  next
    case True
    let ?n = "length (filter isinstance_Randomizable ts)"
    let ?R1 = "snd (randint E (MAX_SEED E) R)"
    have "[0..<Suc ?n] = 0 # map Suc [0..<?n]"
      by (simp only: map_Suc_upt) (rule upt_conv_Cons, simp)
    then have "map (nth_draw E R) [0..<Suc ?n] =
        nth_draw E R 0 # map (\<lambda>k. nth_draw E R (Suc k)) [0..<?n]"
      by (simp add: comp_def)
    also have "\<dots> = fst (randint E (MAX_SEED E) R) # map (nth_draw E ?R1) [0..<?n]"
      by (simp only: nth_draw_0 nth_draw_Suc)
    finally have "map (nth_draw E R) [0..<Suc ?n] =
        fst (randint E (MAX_SEED E) R) # child_seeds E ?R1 ts"
      by (simp only: Cons.IH [of ?R1])
    moreover have "length (filter isinstance_Randomizable (t # ts)) = Suc ?n"
      using True by simp
    ultimately show ?thesis using True by (simp only: child_seeds_Cons) simp
  qed
qed

lemma child_seeds_length:
  "length (child_seeds E R ts) = length (filter isinstance_Randomizable ts)"
  by (simp add: child_seeds_draws)

lemma rank_0: "rank ts 0 = 0"
  by (simp add: rank_def)

lemma rank_Suc:
  "rank (t # ts) (Suc j) = (if isinstance_Randomizable t then Suc (rank ts j) else rank ts j)"
  by (simp add: rank_def)

lemma rank_less:
  "i < length ts \<Longrightarrow> isinstance_Randomizable (ts ! i) \<Longrightarrow>
     rank ts i < length (filter isinstance_Randomizable ts)"
proof (induction ts arbitrary: i)
  case Nil
  then show ?case by simp
next
  case (Cons t ts)
  show ?case
  proof (cases i)
    case 0
    then show ?thesis using Cons.prems by (simp add: rank_0)
  next
    case (Suc j)
    then have "rank ts j < length (filter isinstance_Randomizable ts)"
      using Cons.IH [of j] Cons.prems by simp
    then show ?thesis using Suc by (simp add: rank_Suc)
  qed
qed

lemma seed_members_nth:
  "i < length ts \<Longrightarrow>
     snd (seed_members E R ts) ! i =
       (if isinstance_Randomizable (ts ! i)
        then member_set_random_state E (nth_draw E R (rank ts i)) (ts ! i)
        else ts ! i)"
proof (induction ts arbitrary: R i)
  case Nil
  then show ?case by simp
next
  case (Cons t ts)
  show ?case
  proof (cases i)
    case 0
    then show ?thesis
      by (simp only: seed_members_Cons) (simp add: rank_0 nth_draw_0)
  next
    case (Suc j)
    then have j: "j < length ts" using Cons.prems by simp
    show ?thesis
    proof (cases "isinstance_Randomizable t")
      case True
      then show ?thesis
        using Suc Cons.IH [OF j, of "snd (randint E (MAX_SEED E) R)"]
        by (simp only: seed_members_Cons) (simp add: rank_Suc nth_draw_Suc)
    next
      case False
      then show ?thesis
        using Suc Cons.IH [OF j, of R]
        by (simp only: seed_members_Cons) (simp add: rank_Suc)
    qed
  qed
qed

lemma count_Randomizable_cong:
  "map isinstance_Randomizable us = map isinstance_Randomizable ts \<Longrightarrow>
     length (filter isinstance_Randomizable us) = length (filter isinstance_Randomizable ts)"
proof (induction us arbitrary: ts)
  case Nil
  then show ?case by simp
next
  case (Cons u us)
  then obtain t ts1 where ts: "ts = t # ts1" by (cases ts) auto
  then have "isinstance_Randomizable u = isinstance_Randomizable t"
    and "map isinstance_Randomizable us = map isinstance_Randomizable ts1"
    using Cons.prems by simp_all
  then show ?case using Cons.IH [of ts1] ts by simp
qed

lemma child_seeds_bounded:
  "(\<forall>g. fst (randint E (MAX_SEED E) g) < MAX_SEED E) \<Longrightarrow>
     x \<in> set (child_seeds E R ts) \<Longrightarrow> x < MAX_SEED E"
  by (auto simp: child_seeds_draws nth_draw_def)

text \<open>
  C3 (as amended). \<open>Compose.set_random_state(seed=s)\<close> seeds the sequencer's own
  generator with \<open>s\<close> and then gives every \<open>Randomizable\<close> member, in sequence order, the
  next draw below \<open>MAX_SEED\<close> of that generator as its seed: one draw per \<open>Randomizable\<close>
  member, none for the others, which stay as they are. Hence the seeds depend only on \<open>s\<close>
  and on which positions hold \<open>Randomizable\<close> members: the same parent seed on pipelines
  with the same members gives the same child seeds. (That sibling seeds differ is not part
  of the statement.)
\<close>

theorem set_random_state_child_seeds:
  assumes "compose_set_random_state E (Some s) state ts = (R', ts')"
  shows "length ts' = length ts
    \<and> R' = advance E (RandomState E (Some s)) (length (filter isinstance_Randomizable ts))
    \<and> child_seeds E (RandomState E (Some s)) ts =
        map (nth_draw E (RandomState E (Some s))) [0..<length (filter isinstance_Randomizable ts)]
    \<and> (\<forall>i. i < length ts \<longrightarrow>
          ts' ! i =
            (if isinstance_Randomizable (ts ! i)
             then member_set_random_state E
                    (child_seeds E (RandomState E (Some s)) ts ! rank ts i) (ts ! i)
             else ts ! i))
    \<and> (\<forall>us. map isinstance_Randomizable us = map isinstance_Randomizable ts \<longrightarrow>
          child_seeds E (RandomState E (Some s)) us = child_seeds E (RandomState E (Some s)) ts)"
proof -
  let ?R0 = "RandomState E (Some s)"
  have run: "seed_members E ?R0 ts = (R', ts')"
    using assms by (simp add: compose_set_random_state_def randomizable_set_random_state_def)
  have a: "length ts' = length ts" using seed_members_length [of E ?R0 ts] run by simp
  have b: "R' = advance E ?R0 (length (filter isinstance_Randomizable ts))"
    using seed_members_fst [of E ?R0 ts] run by simp
  have c: "child_seeds E ?R0 ts =
      map (nth_draw E ?R0) [0..<length (filter isinstance_Randomizable ts)]"
    by (rule child_seeds_draws)
  have d: "\<forall>i. i < length ts \<longrightarrow>
          ts' ! i =
            (if isinstance_Randomizable (ts ! i)
             then member_set_random_state E (child_seeds E ?R0 ts ! rank ts i) (ts ! i)
             else ts ! i)"
  proof (intro allI impI)
    fix i assume i: "i < length ts"
    have "ts' ! i = (if isinstance_Randomizable (ts ! i)
        then member_set_random_state E (nth_draw E ?R0 (rank ts i)) (ts ! i) else ts ! i)"
      using seed_members_nth [OF i, of E ?R0] run by simp
    moreover have "isinstance_Randomizable (ts ! i) \<Longrightarrow>
        child_seeds E ?R0 ts ! rank ts i = nth_draw E ?R0 (rank ts i)"
      using rank_less [OF i] by (simp add: child_seeds_draws)
    ultimately show "ts' ! i =
            (if isinstance_Randomizable (ts ! i)
             then member_set_random_state E (child_seeds E ?R0 ts ! rank ts i) (ts ! i)
             else ts ! i)"
      by simp
  qed
  have e: "\<forall>us. map isinstance_Randomizable us = map isinstance_Randomizable ts \<longrightarrow>
          child_seeds E ?R0 us = child_seeds E ?R0 ts"
  proof (intro allI impI)
    fix us :: "'a rtransform list"
    assume "map isinstance_Randomizable us = map isinstance_Randomizable ts"
    then have "length (filter isinstance_Randomizable us)
        = length (filter isinstance_Randomizable ts)"
      by (rule count_Randomizable_cong)
    then show "child_seeds E ?R0 us = child_seeds E ?R0 ts"
      by (simp add: child_seeds_draws)
  qed
  show ?thesis using a b c d e by blast
qed

text \<open>
  The claim as stated fails in its last part: sibling seeds need not differ. Nothing in
  the loop compares the draws, and whatever the generator is, as long as its draws lie below
  \<open>MAX_SEED\<close>, a pipeline of \<open>MAX_SEED + 1\<close> \<open>Randomizable\<close> members receives some seed
  twice.
\<close>

theorem child_seeds_not_distinct:
  "\<not> (\<exists>(E :: 'a externals) s. (\<forall>g. fst (randint E (MAX_SEED E) g) < MAX_SEED E)
        \<and> distinct (child_seeds E (RandomState E (Some s))
             (replicate (Suc (MAX_SEED E)) (Randomizable ''t'' (RandomState E None)))))"
proof
  assume "\<exists>(E :: 'a externals) s. (\<forall>g. fst (randint E (MAX_SEED E) g) < MAX_SEED E)
        \<and> distinct (child_seeds E (RandomState E (Some s))
             (replicate (Suc (MAX_SEED E)) (Randomizable ''t'' (RandomState E None))))"
  then obtain E :: "'a externals" and s :: nat where
    bd: "\<forall>g. fst (randint E (MAX_SEED E) g) < MAX_SEED E"
    and di: "distinct (child_seeds E (RandomState E (Some s))
             (replicate (Suc (MAX_SEED E)) (Randomizable ''t'' (RandomState E None))))"
    by blast
  let ?xs = "child_seeds E (RandomState E (Some s))
             (replicate (Suc (MAX_SEED E)) (Randomizable ''t'' (RandomState E None)))"
  have len: "length ?xs = Suc (MAX_SEED E)"
    by (simp only: child_seeds_length) simp
  have "set ?xs \<subseteq> {..<MAX_SEED E}"
    using child_seeds_bounded [OF bd] by blast
  then have "card (set ?xs) \<le> card {..<MAX_SEED E}"
    by (intro card_mono) simp_all
  moreover have "card (set ?xs) = Suc (MAX_SEED E)"
    using distinct_card [OF di] len by simp
  ultimately show False by simp
qed


theorem set_random_state_child_seeds_witness:
  "compose_set_random_state counter_rng (Some 5) None
      [Plain ''a'', Randomizable ''r'' 0, Randomizable ''z'' 9]
     = (7, [Plain ''a'', Randomizable ''r'' 5, Randomizable ''z'' 6])
   \<and> length [Plain ''a'', Randomizable ''r'' (5::nat), Randomizable ''z'' 6]
       = length [Plain ''a'', Randomizable ''r'' (0::nat), Randomizable ''z'' 9]
   \<and> child_seeds counter_rng (RandomState counter_rng (Some 5))
        [Plain ''a'', Randomizable ''r'' 0, Randomizable ''z'' 9]
      = map (nth_draw counter_rng (RandomState counter_rng (Some 5)))
          [0..<length (filter isinstance_Randomizable
                  [Plain ''a'', Randomizable ''r'' (0::nat), Randomizable ''z'' 9])]
   \<and> child_seeds counter_rng 5 [Plain ''a'', Randomizable ''r'' 0, Randomizable ''z'' 9] = [5, 6]"
proof -
  have run: "compose_set_random_state counter_rng (Some 5) None
      [Plain ''a'', Randomizable ''r'' 0, Randomizable ''z'' 9]
     = (7, [Plain ''a'', Randomizable ''r'' 5, Randomizable ''z'' 6])"
    by (simp add: compose_set_random_state_def randomizable_set_random_state_def counter_rng_def)
  have seeds: "child_seeds counter_rng 5 [Plain ''a'', Randomizable ''r'' 0, Randomizable ''z'' 9]
      = [5, 6]"
    by (simp add: counter_rng_def)
  from set_random_state_child_seeds [OF run] seeds run show ?thesis by blast
qed

lemma compose_init_seed_members:
  "compose_init E arg =
     seed_members E (randomizable_set_random_state E (get_seed E) None) (ensure_tuple arg)"
  by (cases arg) (simp_all add: compose_init_def compose_set_random_state_def)

text \<open>
  C10. Constructing a \<open>Compose\<close> calls \<open>set_random_state(seed=get_seed())\<close>: the new parent
  generator is made from that seed, and every \<open>Randomizable\<close> member has its private
  generator replaced by one seeded with the next draw of the parent (a nested \<open>Compose\<close> is
  reseeded in turn), one draw of the parent being consumed per \<open>Randomizable\<close> member, while
  a member that is not \<open>Randomizable\<close> is left as it was.
\<close>

theorem compose_init_reseeds_members:
  assumes "compose_init E arg = (R', ts')"
  shows "R' = advance E (randomizable_set_random_state E (get_seed E) None)
                (length (filter isinstance_Randomizable (ensure_tuple arg)))
    \<and> length ts' = length (ensure_tuple arg)
    \<and> (\<forall>i. i < length (ensure_tuple arg) \<longrightarrow>
          (case ensure_tuple arg ! i of
             Plain n \<Rightarrow> ts' ! i = Plain n
           | Randomizable n g \<Rightarrow>
               ts' ! i = Randomizable n (RandomState E (Some
                  (nth_draw E (randomizable_set_random_state E (get_seed E) None)
                     (rank (ensure_tuple arg) i))))
           | Compose g us \<Rightarrow>
               ts' ! i = (case compose_set_random_state E (Some
                  (nth_draw E (randomizable_set_random_state E (get_seed E) None)
                     (rank (ensure_tuple arg) i))) None us of
                            (g', us') \<Rightarrow> Compose g' us')))"
proof -
  let ?R0 = "randomizable_set_random_state E (get_seed E) None"
  let ?ts = "ensure_tuple arg"
  have run: "seed_members E ?R0 ?ts = (R', ts')"
    using assms by (simp add: compose_init_seed_members)
  have a: "R' = advance E ?R0 (length (filter isinstance_Randomizable ?ts))"
    using seed_members_fst [of E ?R0 ?ts] run by simp
  have b: "length ts' = length ?ts"
    using seed_members_length [of E ?R0 ?ts] run by simp
  have c: "\<forall>i. i < length ?ts \<longrightarrow>
          (case ?ts ! i of
             Plain n \<Rightarrow> ts' ! i = Plain n
           | Randomizable n g \<Rightarrow>
               ts' ! i = Randomizable n (RandomState E (Some (nth_draw E ?R0 (rank ?ts i))))
           | Compose g us \<Rightarrow>
               ts' ! i = (case compose_set_random_state E (Some (nth_draw E ?R0 (rank ?ts i)))
                                 None us of
                            (g', us') \<Rightarrow> Compose g' us'))"
  proof (intro allI impI)
    fix i assume i: "i < length ?ts"
    have nth: "ts' ! i = (if isinstance_Randomizable (?ts ! i)
        then member_set_random_state E (nth_draw E ?R0 (rank ?ts i)) (?ts ! i) else ?ts ! i)"
      using seed_members_nth [OF i, of E ?R0] run by simp
    show "case ?ts ! i of
             Plain n \<Rightarrow> ts' ! i = Plain n
           | Randomizable n g \<Rightarrow>
               ts' ! i = Randomizable n (RandomState E (Some (nth_draw E ?R0 (rank ?ts i))))
           | Compose g us \<Rightarrow>
               ts' ! i = (case compose_set_random_state E (Some (nth_draw E ?R0 (rank ?ts i)))
                                 None us of
                            (g', us') \<Rightarrow> Compose g' us')"
    proof (cases "?ts ! i")
      case (Plain n)
      then show ?thesis using nth by simp
    next
      case (Randomizable n g)
      then show ?thesis using nth by (simp add: randomizable_set_random_state_def)
    next
      case (Compose g us)
      then show ?thesis using nth by (simp add: compose_set_random_state_def)
    qed
  qed
  show ?thesis using a b c by blast
qed

theorem compose_init_reseeds_members_witness:
  "compose_init counter_rng (SequenceArg [Plain ''a'', Randomizable ''r'' 7, Randomizable ''z'' 9])
     = (2, [Plain ''a'', Randomizable ''r'' 0, Randomizable ''z'' 1])
   \<and> (2::nat) = advance counter_rng
        (randomizable_set_random_state counter_rng (get_seed counter_rng) None)
        (length (filter isinstance_Randomizable
           (ensure_tuple (SequenceArg [Plain ''a'', Randomizable ''r'' (7::nat), Randomizable ''z'' 9]))))
   \<and> length [Plain ''a'', Randomizable ''r'' (0::nat), Randomizable ''z'' 1]
        = length (ensure_tuple (SequenceArg [Plain ''a'', Randomizable ''r'' (7::nat), Randomizable ''z'' 9]))"
proof -
  have run: "compose_init counter_rng
      (SequenceArg [Plain ''a'', Randomizable ''r'' 7, Randomizable ''z'' 9])
     = (2, [Plain ''a'', Randomizable ''r'' 0, Randomizable ''z'' 1])"
    by (simp add: compose_init_def compose_set_random_state_def
        randomizable_set_random_state_def counter_rng_def)
  from compose_init_reseeds_members [OF run] run show ?thesis by blast
qed

section \<open>Properties of randomize\<close>

lemma compose_randomize_no_TypeError:
  "snd (snd (compose_randomize ts data)) \<noteq> Some (TypeError m)"
proof (induction ts data rule: compose_randomize.induct)
  case (1 data)
  show ?case by simp
next
  case (2 n ts data)
  obtain ts' ws e where r: "compose_randomize ts data = (ts', ws, e)"
    by (cases "compose_randomize ts data")
  then show ?case using "2.IH" by simp
next
  case (3 n f s ts data)
  obtain s' r where fr: "f data s = (s', r)" by (cases "f data s")
  obtain ts' ws e where rec: "compose_randomize ts data = (ts', ws, e)"
    by (cases "compose_randomize ts data")
  show ?case
  proof (cases r)
    case None
    then show ?thesis using fr rec "3.IH"(1) by simp
  next
    case (Some ex)
    show ?thesis
    proof (cases ex)
      case (TypeError msg)
      then show ?thesis using fr rec Some "3.IH"(2) by simp
    qed (use fr Some in simp_all)
  qed
qed

lemma compose_randomize_tolerant:
  "list_all (at_most_TypeError data) ts \<Longrightarrow>
     compose_randomize ts data =
       (map (randomized_member data) ts, concat (map (member_warnings data) ts), None)"
proof (induction ts data rule: compose_randomize.induct)
  case (1 data)
  show ?case by simp
next
  case (2 n ts data)
  then show ?case by simp
next
  case (3 n f s ts data)
  obtain s' r where fr: "f data s = (s', r)" by (cases "f data s")
  have rest: "list_all (at_most_TypeError data) ts" using "3.prems" by simp
  show ?case
  proof (cases r)
    case None
    then show ?thesis using fr "3.IH"(1) rest by simp
  next
    case (Some ex)
    show ?thesis
    proof (cases ex)
      case (TypeError msg)
      then show ?thesis using fr Some "3.IH"(2) rest by simp
    qed (use fr Some "3.prems" in simp_all)
  qed
qed

lemma compose_randomize_append:
  "list_all (at_most_TypeError data) pre \<Longrightarrow>
     compose_randomize (pre @ post) data =
       (case compose_randomize post data of
          (post', ws, e) \<Rightarrow>
            (map (randomized_member data) pre @ post',
             concat (map (member_warnings data) pre) @ ws, e))"
proof (induction pre)
  case Nil
  show ?case by (simp split: prod.splits)
next
  case (Cons t pre)
  obtain post' ws e where p: "compose_randomize post data = (post', ws, e)"
    by (cases "compose_randomize post data")
  have rest: "list_all (at_most_TypeError data) pre" using Cons.prems by simp
  have ih: "compose_randomize (pre @ post) data =
      (map (randomized_member data) pre @ post', concat (map (member_warnings data) pre) @ ws, e)"
    using Cons.IH [OF rest] p by simp
  show ?case
  proof (cases t)
    case (Deterministic n)
    then show ?thesis using ih p by simp
  next
    case (Randomized n f s)
    obtain s' r where fr: "f data s = (s', r)" by (cases "f data s")
    show ?thesis
    proof (cases r)
      case None
      then show ?thesis using Randomized fr ih p by simp
    next
      case (Some ex)
      show ?thesis
      proof (cases ex)
        case (TypeError msg)
        then show ?thesis using Randomized fr Some ih p by simp
      qed (use Randomized fr Some Cons.prems in simp_all)
    qed
  qed
qed

text \<open>
  C9. A \<open>TypeError\<close> raised by the \<open>randomize\<close> of a \<open>Randomizable\<close> member never ends
  \<open>Compose.randomize\<close>: the call never ends with a \<open>TypeError\<close>; after members that raise
  nothing else, the loop goes on with the remaining members exactly as a call on them
  alone would, one warning having been issued for each member that raised \<open>TypeError\<close>, in
  sequence order; and when no member raises anything else, the call returns, with every
  \<open>Randomizable\<close> member's \<open>randomize\<close> called once, in sequence order.
\<close>

theorem compose_randomize_downgrades_TypeError:
  "(\<forall>m. snd (snd (compose_randomize ts data)) \<noteq> Some (TypeError m))
   \<and> (list_all (at_most_TypeError data) pre \<longrightarrow>
        compose_randomize (pre @ post) data =
          (case compose_randomize post data of
             (post', ws, e) \<Rightarrow>
               (map (randomized_member data) pre @ post',
                concat (map (member_warnings data) pre) @ ws, e)))
   \<and> (list_all (at_most_TypeError data) ts \<longrightarrow>
        compose_randomize ts data =
          (map (randomized_member data) ts, concat (map (member_warnings data) ts), None))"
  using compose_randomize_no_TypeError [of ts data] compose_randomize_tolerant [of data ts]
    compose_randomize_append [of data pre post]
  by blast

theorem compose_randomize_downgrades_TypeError_witness:
  "list_all (at_most_TypeError (Some 3))
      [Randomized ''RandA'' counting 0, Deterministic ''D'',
       Randomized ''RandB'' takes_no_data 0, Randomized ''RandC'' counting 7]
   \<and> compose_randomize
      [Randomized ''RandA'' counting 0, Deterministic ''D'',
       Randomized ''RandB'' takes_no_data 0, Randomized ''RandC'' counting 7] (Some 3)
     = ([Randomized ''RandA'' counting 1, Deterministic ''D'',
         Randomized ''RandB'' takes_no_data 0, Randomized ''RandC'' counting 8],
        [not_randomized_warning ''RandB''
           ''randomize() takes 1 positional argument but 2 were given''],
        None)"
proof -
  let ?ts = "[Randomized ''RandA'' counting 0, Deterministic ''D'',
       Randomized ''RandB'' takes_no_data 0, Randomized ''RandC'' counting 7]"
  have h: "list_all (at_most_TypeError (Some 3)) ?ts"
    by (simp add: counting_def takes_no_data_def)
  from compose_randomize_downgrades_TypeError [of ?ts "Some 3" ?ts "[]"] h
  have "compose_randomize ?ts (Some 3)
     = (map (randomized_member (Some 3)) ?ts, concat (map (member_warnings (Some 3)) ?ts), None)"
    by blast
  then show ?thesis using h by (simp add: counting_def takes_no_data_def)
qed

section \<open>Properties of the trace protocol and of OneOf\<close>

lemma pop_push:
  "pop_transform c i (push_transform c i d k x) k
     = Inr (\<lparr>class_name = c, ident = i, extra_info = x\<rparr>, d)"
  by (simp add: pop_transform_def push_transform_def)

lemma push_transform_twist:
  "k \<noteq> k' \<Longrightarrow>
     push_transform c i (push_transform c' i' d k' x') k x
       = push_transform c' i' (push_transform c i d k x) k' x'"
  by (simp add: push_transform_def fun_upd_twist)

lemma push_index_Cons:
  "push_index self i (k # ks) d
     = push_index self i ks (push_transform ''OneOf'' (oo_id self) d k (Some i))"
  by (simp add: push_index_def)

lemma push_index_twist:
  "k \<notin> set ks \<Longrightarrow>
     push_index self i ks (push_transform c j d k x)
       = push_transform c j (push_index self i ks d) k x"
proof (induction ks arbitrary: d)
  case Nil
  show ?case by (simp add: push_index_def)
next
  case (Cons a ks)
  then have ne: "a \<noteq> k" and notin: "k \<notin> set ks" by auto
  have "push_index self i (a # ks) (push_transform c j d k x)
      = push_index self i ks
          (push_transform ''OneOf'' (oo_id self) (push_transform c j d k x) a (Some i))"
    by (rule push_index_Cons)
  also have "\<dots> = push_index self i ks
          (push_transform c j (push_transform ''OneOf'' (oo_id self) d a (Some i)) k x)"
    by (simp only: push_transform_twist [OF ne])
  also have "\<dots> = push_transform c j
      (push_index self i ks (push_transform ''OneOf'' (oo_id self) d a (Some i))) k x"
    by (rule Cons.IH [OF notin])
  finally show ?case by (simp only: push_index_Cons)
qed

lemma vals_push_index: "vals (push_index self i ks d) = vals d"
proof (induction ks arbitrary: d)
  case Nil
  show ?case by (simp add: push_index_def)
next
  case (Cons a ks)
  show ?case by (simp only: push_index_Cons Cons.IH) (simp add: push_transform_def)
qed

lemma pop_own_push_index:
  "distinct ks \<Longrightarrow>
     pop_own self ks (push_index self i ks d) idx
       = Inr (d, if ks = [] then idx else Some i)"
proof (induction ks arbitrary: d idx)
  case Nil
  show ?case by (simp add: push_index_def)
next
  case (Cons k ks)
  then have notin: "k \<notin> set ks" and dist: "distinct ks" by auto
  let ?D = "push_index self i ks d"
  let ?e = "\<lparr>class_name = ''OneOf'', ident = oo_id self, extra_info = Some i\<rparr>"
  have eq: "push_index self i (k # ks) d = push_transform ''OneOf'' (oo_id self) ?D k (Some i)"
    by (simp only: push_index_Cons push_index_twist [OF notin])
  have top: "traces (push_transform ''OneOf'' (oo_id self) ?D k (Some i)) k \<noteq> []
      \<and> owned self (last (traces (push_transform ''OneOf'' (oo_id self) ?D k (Some i)) k))"
    by (simp add: push_transform_def owned_def)
  have "pop_own self (k # ks) (push_transform ''OneOf'' (oo_id self) ?D k (Some i)) idx
      = pop_own self ks ?D (Some i)"
    using top by (simp add: pop_push)
  also have "\<dots> = Inr (d, if ks = [] then Some i else Some i)"
    by (rule Cons.IH [OF dist])
  finally show ?case using eq by simp
qed

lemma oneof_roundtrip:
  assumes "index < length (candidates self)"
    and "cand_call (candidates self ! index) data = Inr d"
    and "distinct (map fst (vals d))"
  shows "oneof_call self index data = Inr (push_index self index (map fst (vals d)) d)"
    and "oneof_inverse self (push_index self index (map fst (vals d)) d) =
       (if vals d = [] then Inr d
        else (case cand_inverse (candidates self ! index) of
                None \<Rightarrow> Inl (RuntimeError ''the selected transform is not invertible'')
              | Some inverse_fn \<Rightarrow> inverse_fn d))"
proof -
  show "oneof_call self index data = Inr (push_index self index (map fst (vals d)) d)"
    using assms(1,2) by (simp add: oneof_call_def)
  have pop: "pop_own self (map fst (vals d)) (push_index self index (map fst (vals d)) d) None
      = Inr (d, if map fst (vals d) = [] then None else Some index)"
    by (rule pop_own_push_index [OF assms(3)])
  show "oneof_inverse self (push_index self index (map fst (vals d)) d) =
       (if vals d = [] then Inr d
        else (case cand_inverse (candidates self ! index) of
                None \<Rightarrow> Inl (RuntimeError ''the selected transform is not invertible'')
              | Some inverse_fn \<Rightarrow> inverse_fn d))"
  proof (cases "vals d = []")
    case True
    then show ?thesis using pop
      by (simp add: oneof_inverse_def vals_push_index push_index_def)
  next
    case False
    then show ?thesis using pop assms(1)
      by (simp add: oneof_inverse_def vals_push_index)
  qed
qed

lemma scenario_A:
  "inv_call (InvA 1 KEYS) data0
     = Inr \<lparr>vals = [(''x'', 11), (''y'', 21)],
            traces = (\<lambda>key. [])
              (''x'' := [\<lparr>class_name = ''InvA'', ident = 1, extra_info = None\<rparr>],
               ''y'' := [\<lparr>class_name = ''InvA'', ident = 1, extra_info = None\<rparr>])\<rparr>"
  by (simp add: inv_call_def InvA_def KEYS_def data0_def push_transform_def)

lemma scenario_A_inverse:
  "inv_inverse (InvA 1 KEYS)
     \<lparr>vals = [(''x'', 11), (''y'', 21)],
      traces = (\<lambda>key. [])
        (''x'' := [\<lparr>class_name = ''InvA'', ident = 1, extra_info = None\<rparr>],
         ''y'' := [\<lparr>class_name = ''InvA'', ident = 1, extra_info = None\<rparr>])\<rparr>
     = Inr data0"
  by (simp add: inv_inverse_def InvA_def KEYS_def data0_def pop_transform_def fun_eq_iff)

lemma scenario_B:
  "inv_call (InvB 2 KEYS) data0
     = Inr \<lparr>vals = [(''x'', 110), (''y'', 120)],
            traces = (\<lambda>key. [])
              (''x'' := [\<lparr>class_name = ''InvB'', ident = 2, extra_info = None\<rparr>],
               ''y'' := [\<lparr>class_name = ''InvB'', ident = 2, extra_info = None\<rparr>])\<rparr>"
  by (simp add: inv_call_def InvB_def KEYS_def data0_def push_transform_def)

lemma scenario_B_inverse:
  "inv_inverse (InvB 2 KEYS)
     \<lparr>vals = [(''x'', 110), (''y'', 120)],
      traces = (\<lambda>key. [])
        (''x'' := [\<lparr>class_name = ''InvB'', ident = 2, extra_info = None\<rparr>],
         ''y'' := [\<lparr>class_name = ''InvB'', ident = 2, extra_info = None\<rparr>])\<rparr>
     = Inr data0"
  by (simp add: inv_inverse_def InvB_def KEYS_def data0_def pop_transform_def fun_eq_iff)


lemma traces_push_index_notin:
  "k \<notin> set ks \<Longrightarrow> traces (push_index self i ks d) k = traces d k"
proof (induction ks arbitrary: d)
  case Nil
  show ?case by (simp add: push_index_def)
next
  case (Cons a ks)
  then have ne: "a \<noteq> k" and notin: "k \<notin> set ks" by auto
  have "traces (push_index self i (a # ks) d) k
      = traces (push_transform ''OneOf'' (oo_id self) d a (Some i)) k"
    by (simp only: push_index_Cons Cons.IH [OF notin])
  then show ?case using ne by (simp add: push_transform_def)
qed

lemma traces_push_index_in:
  "distinct ks \<Longrightarrow> k \<in> set ks \<Longrightarrow>
     traces (push_index self i ks d) k
       = traces d k @ [\<lparr>class_name = ''OneOf'', ident = oo_id self, extra_info = Some i\<rparr>]"
proof (induction ks arbitrary: d)
  case Nil
  then show ?case by simp
next
  case (Cons a ks)
  then have notin: "a \<notin> set ks" and dist: "distinct ks" by auto
  have eq: "push_index self i (a # ks) d
      = push_transform ''OneOf'' (oo_id self) (push_index self i ks d) a (Some i)"
    by (simp only: push_index_Cons push_index_twist [OF notin])
  show ?case
  proof (cases "k = a")
    case True
    then show ?thesis
      using traces_push_index_notin [OF notin, of self i d]
      by (simp only: eq) (simp add: push_transform_def)
  next
    case False
    then have "k \<in> set ks" using Cons.prems(2) by simp
    from Cons.IH [OF dist this, of d] False show ?thesis
      by (simp only: eq) (simp add: push_transform_def)
  qed
qed

text \<open>
  C1. For every keyed record and every index drawn on the forward pass, \<open>OneOf.inverse\<close>
  invokes \<open>inverse\<close> on exactly the branch of that index: the forward pass leaves, as the
  last trace entry of every key, an entry of this \<open>OneOf\<close> with the index; the inverse takes
  no draw, pops these entries, and returns what the inverse of that branch returns on the
  record the branch had produced (a usage error when the branch has no inverse; on a record
  with no key there is no entry and nothing is invoked). In the scenario
  \<open>OneOf((InvA, InvB))\<close> applied to \<open>{"x": 10.0, "y": 20.0}\<close> and inverted gives back the
  record, whichever of the two branches was drawn.
\<close>

theorem oneof_inverse_replays_branch:
  "(index < length (candidates self) \<and> cand_call (candidates self ! index) data = Inr d
      \<and> distinct (map fst (vals d)) \<longrightarrow>
      oneof_call self index data = Inr (push_index self index (map fst (vals d)) d)
    \<and> (\<forall>key. key \<in> set (map fst (vals d)) \<longrightarrow>
          last (traces (push_index self index (map fst (vals d)) d) key)
            = \<lparr>class_name = ''OneOf'', ident = oo_id self, extra_info = Some index\<rparr>)
    \<and> oneof_inverse self (push_index self index (map fst (vals d)) d) =
       (if vals d = [] then Inr d
        else (case cand_inverse (candidates self ! index) of
                None \<Rightarrow> Inl (RuntimeError ''the selected transform is not invertible'')
              | Some inverse_fn \<Rightarrow> inverse_fn d)))
   \<and> (\<exists>d0. oneof_call scenario 0 data0 = Inr d0 \<and> oneof_inverse scenario d0 = Inr data0)
   \<and> (\<exists>d1. oneof_call scenario 1 data0 = Inr d1 \<and> oneof_inverse scenario d1 = Inr data0)"
proof (intro conjI impI)
  assume a: "index < length (candidates self) \<and> cand_call (candidates self ! index) data = Inr d
      \<and> distinct (map fst (vals d))"
  then have a1: "index < length (candidates self)"
    and a2: "cand_call (candidates self ! index) data = Inr d"
    and a3: "distinct (map fst (vals d))" by simp_all
  show "oneof_call self index data = Inr (push_index self index (map fst (vals d)) d)"
    by (rule oneof_roundtrip(1) [OF a1 a2 a3])
  show "oneof_inverse self (push_index self index (map fst (vals d)) d) =
       (if vals d = [] then Inr d
        else (case cand_inverse (candidates self ! index) of
                None \<Rightarrow> Inl (RuntimeError ''the selected transform is not invertible'')
              | Some inverse_fn \<Rightarrow> inverse_fn d))"
    by (rule oneof_roundtrip(2) [OF a1 a2 a3])
  show "\<forall>key. key \<in> set (map fst (vals d)) \<longrightarrow>
          last (traces (push_index self index (map fst (vals d)) d) key)
            = \<lparr>class_name = ''OneOf'', ident = oo_id self, extra_info = Some index\<rparr>"
  proof (intro allI impI)
    fix key assume "key \<in> set (map fst (vals d))"
    from traces_push_index_in [OF a3 this, of self index d]
    show "last (traces (push_index self index (map fst (vals d)) d) key)
            = \<lparr>class_name = ''OneOf'', ident = oo_id self, extra_info = Some index\<rparr>"
      by simp
  qed
next
  let ?dA = "\<lparr>vals = [(''x'', 11), (''y'', 21 :: real)],
              traces = (\<lambda>key. [])
                (''x'' := [\<lparr>class_name = ''InvA'', ident = 1, extra_info = None\<rparr>],
                 ''y'' := [\<lparr>class_name = ''InvA'', ident = 1, extra_info = None\<rparr>])\<rparr>"
  have i: "0 < length (candidates scenario)" by (simp add: scenario_def)
  have c: "cand_call (candidates scenario ! 0) data0 = Inr ?dA"
    using scenario_A by (simp add: scenario_def as_candidate_def)
  have di: "distinct (map fst (vals ?dA))" by simp
  have "oneof_inverse scenario (push_index scenario 0 (map fst (vals ?dA)) ?dA) = Inr data0"
    using oneof_roundtrip(2) [OF i c di] scenario_A_inverse
    by (simp add: scenario_def as_candidate_def)
  then show "\<exists>d0. oneof_call scenario 0 data0 = Inr d0 \<and> oneof_inverse scenario d0 = Inr data0"
    using oneof_roundtrip(1) [OF i c di] by blast
next
  let ?dB = "\<lparr>vals = [(''x'', 110), (''y'', 120 :: real)],
              traces = (\<lambda>key. [])
                (''x'' := [\<lparr>class_name = ''InvB'', ident = 2, extra_info = None\<rparr>],
                 ''y'' := [\<lparr>class_name = ''InvB'', ident = 2, extra_info = None\<rparr>])\<rparr>"
  have i: "1 < length (candidates scenario)" by (simp add: scenario_def)
  have c: "cand_call (candidates scenario ! 1) data0 = Inr ?dB"
    using scenario_B by (simp add: scenario_def as_candidate_def)
  have di: "distinct (map fst (vals ?dB))" by simp
  have "oneof_inverse scenario (push_index scenario 1 (map fst (vals ?dB)) ?dB) = Inr data0"
    using oneof_roundtrip(2) [OF i c di] scenario_B_inverse
    by (simp add: scenario_def as_candidate_def)
  then show "\<exists>d1. oneof_call scenario 1 data0 = Inr d1 \<and> oneof_inverse scenario d1 = Inr data0"
    using oneof_roundtrip(1) [OF i c di] by blast
qed

theorem oneof_inverse_replays_branch_witness:
  "1 < length (candidates scenario)
   \<and> cand_call (candidates scenario ! 1) data0
       = Inr \<lparr>vals = [(''x'', 110), (''y'', 120)],
              traces = (\<lambda>key. [])
                (''x'' := [\<lparr>class_name = ''InvB'', ident = 2, extra_info = None\<rparr>],
                 ''y'' := [\<lparr>class_name = ''InvB'', ident = 2, extra_info = None\<rparr>])\<rparr>
   \<and> oneof_call scenario 1 data0
       = Inr (push_index scenario 1 [''x'', ''y'']
           \<lparr>vals = [(''x'', 110), (''y'', 120)],
            traces = (\<lambda>key. [])
              (''x'' := [\<lparr>class_name = ''InvB'', ident = 2, extra_info = None\<rparr>],
               ''y'' := [\<lparr>class_name = ''InvB'', ident = 2, extra_info = None\<rparr>])\<rparr>)
   \<and> oneof_inverse scenario (push_index scenario 1 [''x'', ''y'']
           \<lparr>vals = [(''x'', 110), (''y'', 120)],
            traces = (\<lambda>key. [])
              (''x'' := [\<lparr>class_name = ''InvB'', ident = 2, extra_info = None\<rparr>],
               ''y'' := [\<lparr>class_name = ''InvB'', ident = 2, extra_info = None\<rparr>])\<rparr>)
       = Inr data0"
proof -
  let ?dB = "\<lparr>vals = [(''x'', 110), (''y'', 120 :: real)],
              traces = (\<lambda>key. [])
                (''x'' := [\<lparr>class_name = ''InvB'', ident = 2, extra_info = None\<rparr>],
                 ''y'' := [\<lparr>class_name = ''InvB'', ident = 2, extra_info = None\<rparr>])\<rparr>"
  have i: "1 < length (candidates scenario)" by (simp add: scenario_def)
  have c: "cand_call (candidates scenario ! 1) data0 = Inr ?dB"
    using scenario_B by (simp add: scenario_def as_candidate_def)
  have di: "distinct (map fst (vals ?dB))" by simp
  have inv: "cand_inverse (candidates scenario ! 1) = Some (inv_inverse (InvB 2 KEYS))"
    by (simp add: scenario_def as_candidate_def)
  from oneof_inverse_replays_branch [of 1 scenario data0 ?dB] i c di
  have "oneof_call scenario 1 data0 = Inr (push_index scenario 1 (map fst (vals ?dB)) ?dB)
    \<and> oneof_inverse scenario (push_index scenario 1 (map fst (vals ?dB)) ?dB) =
       (if vals ?dB = [] then Inr ?dB
        else (case cand_inverse (candidates scenario ! 1) of
                None \<Rightarrow> Inl (RuntimeError ''the selected transform is not invertible'')
              | Some inverse_fn \<Rightarrow> inverse_fn ?dB))"
    by blast
  then show ?thesis using i c inv scenario_B_inverse by simp
qed


lemma pop_transform_Inr:
  "pop_transform c i d k = Inr (e, d') \<Longrightarrow>
     traces d k \<noteq> [] \<and> e = last (traces d k) \<and> class_name e = c \<and> ident e = i
     \<and> d' = d\<lparr>traces := (traces d)(k := butlast (traces d k))\<rparr>"
  by (auto simp: pop_transform_def split: if_splits)

lemma pop_transform_Inl:
  "pop_transform c i d k = Inl ex \<Longrightarrow> \<exists>msg. ex = RuntimeError msg"
  by (auto simp: pop_transform_def split: if_splits)

lemma pop_transform_out_of_order:
  "traces d k = [] \<or> class_name (last (traces d k)) \<noteq> c \<or> ident (last (traces d k)) \<noteq> i \<Longrightarrow>
     \<exists>msg. pop_transform c i d k = Inl (RuntimeError msg)"
  by (auto simp: pop_transform_def)

lemma inv_call_loop_traces:
  "inv_call_loop t ks d = Inr d' \<Longrightarrow> distinct ks \<Longrightarrow>
     traces d' k =
       (if k \<in> set ks
        then traces d k @ [\<lparr>class_name = inv_class t, ident = inv_id t, extra_info = None\<rparr>]
        else traces d k)"
proof (induction ks arbitrary: d)
  case Nil
  then show ?case by simp
next
  case (Cons a ks)
  then obtain v where v: "map_of (vals d) a = Some v"
    by (cases "map_of (vals d) a") auto
  let ?d1 = "push_transform (inv_class t) (inv_id t)
               (d\<lparr>vals := AList.update a (fwd_fn t v) (vals d)\<rparr>) a None"
  have run: "inv_call_loop t ks ?d1 = Inr d'" using Cons.prems(1) v by simp
  have dist: "distinct ks" and notin: "a \<notin> set ks" using Cons.prems(2) by auto
  have "traces d' k =
       (if k \<in> set ks
        then traces ?d1 k @ [\<lparr>class_name = inv_class t, ident = inv_id t, extra_info = None\<rparr>]
        else traces ?d1 k)"
    by (rule Cons.IH [OF run dist])
  then show ?case using notin by (auto simp: push_transform_def)
qed

lemma inv_inverse_loop_traces:
  "inv_inverse_loop t ks d = Inr d' \<Longrightarrow> distinct ks \<Longrightarrow>
     (if k \<in> set ks
      then traces d k \<noteq> [] \<and> class_name (last (traces d k)) = inv_class t
           \<and> ident (last (traces d k)) = inv_id t
           \<and> traces d' k = butlast (traces d k)
      else traces d' k = traces d k)"
proof (induction ks arbitrary: d)
  case Nil
  then show ?case by simp
next
  case (Cons a ks)
  then obtain v where v: "map_of (vals d) a = Some v"
    by (cases "map_of (vals d) a") auto
  let ?d0 = "d\<lparr>vals := AList.update a (inv_fn t v) (vals d)\<rparr>"
  obtain en d1 where pop: "pop_transform (inv_class t) (inv_id t) ?d0 a = Inr (en, d1)"
    using Cons.prems(1) v by (cases "pop_transform (inv_class t) (inv_id t) ?d0 a") auto
  have run: "inv_inverse_loop t ks d1 = Inr d'" using Cons.prems(1) v pop by simp
  have dist: "distinct ks" and notin: "a \<notin> set ks" using Cons.prems(2) by auto
  note p = pop_transform_Inr [OF pop]
  have tr1: "traces d1 = (traces d)(a := butlast (traces d a))" using p by simp
  have top: "traces d a \<noteq> [] \<and> class_name (last (traces d a)) = inv_class t
      \<and> ident (last (traces d a)) = inv_id t"
    using p by auto
  have ih: "if k \<in> set ks
      then traces d1 k \<noteq> [] \<and> class_name (last (traces d1 k)) = inv_class t
           \<and> ident (last (traces d1 k)) = inv_id t
           \<and> traces d' k = butlast (traces d1 k)
      else traces d' k = traces d1 k"
    by (rule Cons.IH [OF run dist])
  show ?case
  proof (cases "k = a")
    case True
    have "traces d1 a = butlast (traces d a)" using tr1 by simp
    moreover have "traces d' a = traces d1 a" using ih notin True by (auto split: if_splits)
    ultimately show ?thesis using True top by simp
  next
    case False
    then have "traces d1 k = traces d k" using tr1 by simp
    then show ?thesis using ih False by (auto split: if_splits)
  qed
qed

lemma inv_inverse_loop_out_of_order:
  "k \<in> set ks \<Longrightarrow> set ks \<subseteq> fst ` set (vals d) \<Longrightarrow>
   traces d k = [] \<or> class_name (last (traces d k)) \<noteq> inv_class t
     \<or> ident (last (traces d k)) \<noteq> inv_id t \<Longrightarrow>
   \<exists>msg. inv_inverse_loop t ks d = Inl (RuntimeError msg)"
proof (induction ks arbitrary: d)
  case Nil
  then show ?case by simp
next
  case (Cons a ks)
  have "a \<in> fst ` set (vals d)" using Cons.prems(2) by simp
  then obtain v where v: "map_of (vals d) a = Some v"
    by (cases "map_of (vals d) a") (auto simp: map_of_eq_None_iff)
  let ?d0 = "d\<lparr>vals := AList.update a (inv_fn t v) (vals d)\<rparr>"
  show ?case
  proof (cases "pop_transform (inv_class t) (inv_id t) ?d0 a")
    case (Inl ex)
    then show ?thesis using v pop_transform_Inl [OF Inl] by auto
  next
    case (Inr r)
    obtain en d1 where r: "r = (en, d1)" by (cases r)
    note p = pop_transform_Inr [OF Inr [unfolded r]]
    have ne: "a \<noteq> k"
    proof
      assume "a = k"
      then have "traces ?d0 a = [] \<or> class_name (last (traces ?d0 a)) \<noteq> inv_class t
          \<or> ident (last (traces ?d0 a)) \<noteq> inv_id t"
        using Cons.prems(3) by simp
      from pop_transform_out_of_order [OF this] Inr show False by auto
    qed
    then have kin: "k \<in> set ks" using Cons.prems(1) by auto
    have "map fst (vals d1) = map fst (vals d)"
      using p \<open>a \<in> fst ` set (vals d)\<close> by (simp add: update_keys)
    then have "fst ` set (vals d1) = fst ` set (vals d)"
      by (metis set_map)
    then have sub: "set ks \<subseteq> fst ` set (vals d1)" using Cons.prems(2) by simp
    have "traces d1 k = traces d k" using p ne by simp
    then have bad: "traces d1 k = [] \<or> class_name (last (traces d1 k)) \<noteq> inv_class t
        \<or> ident (last (traces d1 k)) \<noteq> inv_id t"
      using Cons.prems(3) by simp
    from Cons.IH [OF kin sub bad] show ?thesis using v Inr r by simp
  qed
qed

lemma oneof_call_traces:
  assumes "index < length (candidates self)"
    and "cand_call (candidates self ! index) data = Inr d1"
    and "distinct (map fst (vals d1))"
  shows "\<exists>d2. oneof_call self index data = Inr d2
     \<and> (\<forall>key. length (traces d2 key) =
           length (traces d1 key) + (if key \<in> set (map fst (vals d1)) then 1 else 0))"
proof -
  let ?d2 = "push_index self index (map fst (vals d1)) d1"
  have run: "oneof_call self index data = Inr ?d2"
    by (rule oneof_roundtrip(1) [OF assms])
  have "\<forall>key. length (traces ?d2 key) =
           length (traces d1 key) + (if key \<in> set (map fst (vals d1)) then 1 else 0)"
  proof
    fix key
    show "length (traces ?d2 key) =
           length (traces d1 key) + (if key \<in> set (map fst (vals d1)) then 1 else 0)"
    proof (cases "key \<in> set (map fst (vals d1))")
      case True
      from traces_push_index_in [OF assms(3) True, of self index d1] True
      show ?thesis by simp
    next
      case False
      from traces_push_index_notin [OF False, of self index d1] False
      show ?thesis by simp
    qed
  qed
  then show ?thesis using run by blast
qed

text \<open>
  C2 (as amended). The trace of a key is a stack. \<open>push_transform\<close> appends exactly one
  entry for its key and leaves the other keys as they are, and \<open>pop_transform\<close> right after
  it gives the entry and the record back; a \<open>pop_transform\<close> that succeeds removes exactly
  the last entry, which is the caller's own; it raises the usage error when the key has no
  entry or the last entry is not the caller's own (another class, or another instance of
  the same class). So for a leaf invertible transform (the class \<open>Inv\<close> of the tests):
  applying it adds exactly one entry for each key it acts on and none for the others, a
  successful inverse removes exactly one for each key it acts on, and an inverse out of
  order (no entry, or a last entry that another transform pushed) raises the usage error.
  A \<open>OneOf\<close> adds one entry of its own for every key on top of those its branch pushed.
\<close>

theorem trace_stack_discipline:
  "traces (push_transform c i d k x) k
      = traces d k @ [\<lparr>class_name = c, ident = i, extra_info = x\<rparr>]
   \<and> (\<forall>k'. k' \<noteq> k \<longrightarrow> traces (push_transform c i d k x) k' = traces d k')
   \<and> pop_transform c i (push_transform c i d k x) k
      = Inr (\<lparr>class_name = c, ident = i, extra_info = x\<rparr>, d)
   \<and> (pop_transform c i d k = Inr (e, d') \<longrightarrow>
        traces d k = traces d' k @ [e] \<and> class_name e = c \<and> ident e = i)
   \<and> (traces d k = [] \<or> class_name (last (traces d k)) \<noteq> c
        \<or> ident (last (traces d k)) \<noteq> i \<longrightarrow>
        (\<exists>msg. pop_transform c i d k = Inl (RuntimeError msg)))
   \<and> (distinct (inv_keys t) \<and> inv_call t d = Inr d' \<longrightarrow>
        length (traces d' k) =
          length (traces d k) + (if k \<in> set (inv_keys t) then 1 else 0))
   \<and> (distinct (inv_keys t) \<and> inv_inverse t d = Inr d' \<longrightarrow>
        length (traces d' k) + (if k \<in> set (inv_keys t) then 1 else 0) =
          length (traces d k))
   \<and> (k \<in> set (inv_keys t) \<and> set (inv_keys t) \<subseteq> fst ` set (vals d)
        \<and> (traces d k = [] \<or> class_name (last (traces d k)) \<noteq> inv_class t
             \<or> ident (last (traces d k)) \<noteq> inv_id t) \<longrightarrow>
        (\<exists>msg. inv_inverse t d = Inl (RuntimeError msg)))
   \<and> (index < length (candidates self) \<and> cand_call (candidates self ! index) data = Inr d1
        \<and> distinct (map fst (vals d1)) \<longrightarrow>
        (\<exists>d2. oneof_call self index data = Inr d2
           \<and> (\<forall>key. length (traces d2 key) =
                 length (traces d1 key) + (if key \<in> set (map fst (vals d1)) then 1 else 0))))"
proof (intro conjI impI allI)
  show "traces (push_transform c i d k x) k
      = traces d k @ [\<lparr>class_name = c, ident = i, extra_info = x\<rparr>]"
    by (simp add: push_transform_def)
  show "pop_transform c i (push_transform c i d k x) k
      = Inr (\<lparr>class_name = c, ident = i, extra_info = x\<rparr>, d)"
    by (rule pop_push)
next
  fix k' assume "k' \<noteq> k"
  then show "traces (push_transform c i d k x) k' = traces d k'"
    by (simp add: push_transform_def)
next
  assume p: "pop_transform c i d k = Inr (e, d')"
  note q = pop_transform_Inr [OF p]
  have "traces d' k = butlast (traces d k)" using q by auto
  moreover have "e = last (traces d k)" and "traces d k \<noteq> []" using q by auto
  ultimately show "traces d k = traces d' k @ [e]" by simp
  show "class_name e = c" using q by blast
  show "ident e = i" using q by blast
next
  assume "traces d k = [] \<or> class_name (last (traces d k)) \<noteq> c
        \<or> ident (last (traces d k)) \<noteq> i"
  then show "\<exists>msg. pop_transform c i d k = Inl (RuntimeError msg)"
    by (rule pop_transform_out_of_order)
next
  assume a: "distinct (inv_keys t) \<and> inv_call t d = Inr d'"
  then have "inv_call_loop t (inv_keys t) d = Inr d'" by (simp add: inv_call_def)
  from inv_call_loop_traces [OF this, of k] a
  show "length (traces d' k) =
          length (traces d k) + (if k \<in> set (inv_keys t) then 1 else 0)"
    by simp
next
  assume a: "distinct (inv_keys t) \<and> inv_inverse t d = Inr d'"
  then have "inv_inverse_loop t (inv_keys t) d = Inr d'" by (simp add: inv_inverse_def)
  from inv_inverse_loop_traces [OF this, of k] a
  have "if k \<in> set (inv_keys t)
      then traces d k \<noteq> [] \<and> traces d' k = butlast (traces d k)
      else traces d' k = traces d k"
    by (simp split: if_splits)
  then show "length (traces d' k) + (if k \<in> set (inv_keys t) then 1 else 0) =
          length (traces d k)"
    by (simp split: if_splits)
next
  assume a: "k \<in> set (inv_keys t) \<and> set (inv_keys t) \<subseteq> fst ` set (vals d)
        \<and> (traces d k = [] \<or> class_name (last (traces d k)) \<noteq> inv_class t
             \<or> ident (last (traces d k)) \<noteq> inv_id t)"
  then have "\<exists>msg. inv_inverse_loop t (inv_keys t) d = Inl (RuntimeError msg)"
    using inv_inverse_loop_out_of_order [of k "inv_keys t" d t] by blast
  then show "\<exists>msg. inv_inverse t d = Inl (RuntimeError msg)" by (simp add: inv_inverse_def)
next
  assume a: "index < length (candidates self) \<and> cand_call (candidates self ! index) data = Inr d1
        \<and> distinct (map fst (vals d1))"
  then show "\<exists>d2. oneof_call self index data = Inr d2
           \<and> (\<forall>key. length (traces d2 key) =
                 length (traces d1 key) + (if key \<in> set (map fst (vals d1)) then 1 else 0))"
    using oneof_call_traces [of index self data d1] by blast
qed

theorem trace_stack_discipline_witness:
  "distinct (inv_keys (InvA 1 KEYS)) \<and> ''x'' \<in> set (inv_keys (InvA 1 KEYS))
   \<and> set (inv_keys (InvA 1 KEYS)) \<subseteq> fst ` set (vals data0)
   \<and> (\<exists>dA. inv_call (InvA 1 KEYS) data0 = Inr dA
         \<and> length (traces dA ''x'') = length (traces data0 ''x'') + 1
         \<and> inv_inverse (InvA 1 KEYS) dA = Inr data0
         \<and> length (traces data0 ''x'') + 1 = length (traces dA ''x'')
         \<and> (\<exists>e dP. pop_transform ''InvA'' 1 dA ''x'' = Inr (e, dP)
               \<and> traces dA ''x'' = traces dP ''x'' @ [e]
               \<and> class_name e = ''InvA'' \<and> ident e = 1)
         \<and> ident (last (traces dA ''x'')) \<noteq> inv_id (InvA 3 KEYS)
         \<and> (\<exists>msg. pop_transform ''InvA'' 3 dA ''x'' = Inl (RuntimeError msg))
         \<and> (\<exists>msg. inv_inverse (InvA 3 KEYS) dA = Inl (RuntimeError msg))
         \<and> class_name (last (traces dA ''x'')) \<noteq> inv_class (InvB 2 KEYS)
         \<and> (\<exists>msg. inv_inverse (InvB 2 KEYS) dA = Inl (RuntimeError msg))
         \<and> (\<exists>d2. oneof_call scenario 0 data0 = Inr d2
               \<and> length (traces d2 ''x'') = length (traces dA ''x'') + 1))
   \<and> traces data0 ''x'' = []
   \<and> (\<exists>msg. pop_transform ''InvA'' 1 data0 ''x'' = Inl (RuntimeError msg))
   \<and> (\<exists>msg. inv_inverse (InvA 1 KEYS) data0 = Inl (RuntimeError msg))"
proof -
  let ?dA = "\<lparr>vals = [(''x'', 11), (''y'', 21 :: real)],
              traces = (\<lambda>key. [])
                (''x'' := [\<lparr>class_name = ''InvA'', ident = 1, extra_info = None\<rparr>],
                 ''y'' := [\<lparr>class_name = ''InvA'', ident = 1, extra_info = None\<rparr>])\<rparr>"
  let ?e = "\<lparr>class_name = ''InvA'', ident = 1, extra_info = None\<rparr>"
  let ?dP = "?dA\<lparr>traces := (traces ?dA)(''x'' := butlast (traces ?dA ''x''))\<rparr>"
  have k1: "distinct (inv_keys (InvA 1 KEYS))" and k2: "''x'' \<in> set (inv_keys (InvA 1 KEYS))"
    and k3: "set (inv_keys (InvA 1 KEYS)) \<subseteq> fst ` set (vals data0)"
    and k4: "''x'' \<in> set (inv_keys (InvB 2 KEYS))"
    and k5: "set (inv_keys (InvB 2 KEYS)) \<subseteq> fst ` set (vals ?dA)"
    and k6: "''x'' \<in> set (inv_keys (InvA 3 KEYS))"
    and k7: "set (inv_keys (InvA 3 KEYS)) \<subseteq> fst ` set (vals ?dA)"
    by (simp_all add: InvA_def InvB_def KEYS_def data0_def)
  have e0: "traces data0 ''x'' = []" by (simp add: data0_def)
  have topB: "class_name (last (traces ?dA ''x'')) \<noteq> inv_class (InvB 2 KEYS)"
    by (simp add: InvB_def)
  have topA3: "ident (last (traces ?dA ''x'')) \<noteq> inv_id (InvA 3 KEYS)"
    by (simp add: InvA_def)
  have top3: "ident (last (traces ?dA ''x'')) \<noteq> 3" by simp
  have pop: "pop_transform ''InvA'' 1 ?dA ''x'' = Inr (?e, ?dP)"
    by (simp add: pop_transform_def)
  have oi: "0 < length (candidates scenario)" by (simp add: scenario_def)
  have oc: "cand_call (candidates scenario ! 0) data0 = Inr ?dA"
    using scenario_A by (simp add: scenario_def as_candidate_def)
  have od: "distinct (map fst (vals ?dA))" by simp
  have ox: "''x'' \<in> set (map fst (vals ?dA))" by simp
  note fwd = trace_stack_discipline [where c = "''InvA''" and i = 1 and d = data0
      and k = "''x''" and x = None and e = ?e and d' = ?dA and t = "InvA 1 KEYS"
      and index = 0 and self = scenario and data = data0 and ?d1.0 = ?dA]
  note bwd = trace_stack_discipline [where c = "''InvA''" and i = 1 and d = ?dA
      and k = "''x''" and x = None and e = ?e and d' = data0 and t = "InvA 1 KEYS"
      and index = 0 and self = scenario and data = data0 and ?d1.0 = ?dA]
  note own = trace_stack_discipline [where c = "''InvA''" and i = 1 and d = ?dA
      and k = "''x''" and x = None and e = ?e and d' = ?dP and t = "InvB 2 KEYS"
      and index = 0 and self = scenario and data = data0 and ?d1.0 = ?dA]
  note new = trace_stack_discipline [where c = "''InvA''" and i = 3 and d = ?dA
      and k = "''x''" and x = None and e = ?e and d' = ?dP and t = "InvA 3 KEYS"
      and index = 0 and self = scenario and data = data0 and ?d1.0 = ?dA]
  have a: "length (traces ?dA ''x'') = length (traces data0 ''x'') + 1"
    using fwd k1 k2 scenario_A by simp
  have b: "length (traces data0 ''x'') + 1 = length (traces ?dA ''x'')"
    using bwd k1 k2 scenario_A_inverse by simp
  have c: "traces ?dA ''x'' = traces ?dP ''x'' @ [?e] \<and> class_name ?e = ''InvA'' \<and> ident ?e = 1"
    using own pop by blast
  have d: "\<exists>msg. inv_inverse (InvB 2 KEYS) ?dA = Inl (RuntimeError msg)"
    using own k4 k5 topB by blast
  have n1: "\<exists>msg. pop_transform ''InvA'' 3 ?dA ''x'' = Inl (RuntimeError msg)"
    using new top3 by blast
  have n2: "\<exists>msg. inv_inverse (InvA 3 KEYS) ?dA = Inl (RuntimeError msg)"
    using new k6 k7 topA3 by blast
  have f: "\<exists>msg. pop_transform ''InvA'' 1 data0 ''x'' = Inl (RuntimeError msg)"
    using fwd e0 by blast
  have g: "\<exists>msg. inv_inverse (InvA 1 KEYS) data0 = Inl (RuntimeError msg)"
    using fwd k2 k3 e0 by blast
  have "\<exists>d2. oneof_call scenario 0 data0 = Inr d2
           \<and> (\<forall>key. length (traces d2 key) =
                 length (traces ?dA key) + (if key \<in> set (map fst (vals ?dA)) then 1 else 0))"
    using fwd oi oc od by blast
  then obtain d2 where o1: "oneof_call scenario 0 data0 = Inr d2"
    and o2: "\<forall>key. length (traces d2 key) =
                 length (traces ?dA key) + (if key \<in> set (map fst (vals ?dA)) then 1 else 0)"
    by blast
  have "length (traces d2 ''x'') = length (traces ?dA ''x'') + 1"
    using o2 [rule_format, of "''x''"] ox by simp
  then have h: "\<exists>d2. oneof_call scenario 0 data0 = Inr d2
               \<and> length (traces d2 ''x'') = length (traces ?dA ''x'') + 1"
    using o1 by blast
  have "inv_call (InvA 1 KEYS) data0 = Inr ?dA
         \<and> length (traces ?dA ''x'') = length (traces data0 ''x'') + 1
         \<and> inv_inverse (InvA 1 KEYS) ?dA = Inr data0
         \<and> length (traces data0 ''x'') + 1 = length (traces ?dA ''x'')
         \<and> (\<exists>e dP. pop_transform ''InvA'' 1 ?dA ''x'' = Inr (e, dP)
               \<and> traces ?dA ''x'' = traces dP ''x'' @ [e]
               \<and> class_name e = ''InvA'' \<and> ident e = 1)
         \<and> ident (last (traces ?dA ''x'')) \<noteq> inv_id (InvA 3 KEYS)
         \<and> (\<exists>msg. pop_transform ''InvA'' 3 ?dA ''x'' = Inl (RuntimeError msg))
         \<and> (\<exists>msg. inv_inverse (InvA 3 KEYS) ?dA = Inl (RuntimeError msg))
         \<and> class_name (last (traces ?dA ''x'')) \<noteq> inv_class (InvB 2 KEYS)
         \<and> (\<exists>msg. inv_inverse (InvB 2 KEYS) ?dA = Inl (RuntimeError msg))
         \<and> (\<exists>d2. oneof_call scenario 0 data0 = Inr d2
               \<and> length (traces d2 ''x'') = length (traces ?dA ''x'') + 1)"
    using scenario_A scenario_A_inverse a b c d n1 n2 topA3 topB h pop by blast
  then show ?thesis using k1 k2 k3 e0 f g by blast
qed

text \<open>
  The claim as stated fails in its count: an invertible transform need not append exactly
  one entry for every key. The \<open>OneOf\<close> of the scenario, applied once, leaves two entries
  for the key \<open>x\<close> (the one of its branch and its own), and \<open>InvA\<close> on the key \<open>x\<close> alone
  leaves none for the key \<open>y\<close>.
\<close>

theorem trace_one_entry_counterexample:
  "(\<exists>d. oneof_call scenario 0 data0 = Inr d
       \<and> length (traces d ''x'') = length (traces data0 ''x'') + 2)
   \<and> (\<exists>d. inv_call (InvA 1 [''x'']) data0 = Inr d
       \<and> length (traces d ''y'') = length (traces data0 ''y''))"
proof
  let ?dA = "\<lparr>vals = [(''x'', 11), (''y'', 21 :: real)],
              traces = (\<lambda>key. [])
                (''x'' := [\<lparr>class_name = ''InvA'', ident = 1, extra_info = None\<rparr>],
                 ''y'' := [\<lparr>class_name = ''InvA'', ident = 1, extra_info = None\<rparr>])\<rparr>"
  have i: "0 < length (candidates scenario)" by (simp add: scenario_def)
  have c: "cand_call (candidates scenario ! 0) data0 = Inr ?dA"
    using scenario_A by (simp add: scenario_def as_candidate_def)
  have di: "distinct (map fst (vals ?dA))" by simp
  have run: "oneof_call scenario 0 data0 = Inr (push_index scenario 0 (map fst (vals ?dA)) ?dA)"
    by (rule oneof_roundtrip(1) [OF i c di])
  have "''x'' \<in> set (map fst (vals ?dA))" by simp
  from traces_push_index_in [OF di this, of scenario 0 ?dA]
  have "length (traces (push_index scenario 0 (map fst (vals ?dA)) ?dA) ''x'')
      = length (traces data0 ''x'') + 2"
    by (simp add: data0_def)
  then show "\<exists>d. oneof_call scenario 0 data0 = Inr d
       \<and> length (traces d ''x'') = length (traces data0 ''x'') + 2"
    using run by blast
next
  have "inv_call (InvA 1 [''x'']) data0
      = Inr \<lparr>vals = [(''x'', 11), (''y'', 20)],
             traces = (\<lambda>key. [])
               (''x'' := [\<lparr>class_name = ''InvA'', ident = 1, extra_info = None\<rparr>])\<rparr>"
    by (simp add: inv_call_def InvA_def data0_def push_transform_def)
  then show "\<exists>d. inv_call (InvA 1 [''x'']) data0 = Inr d
       \<and> length (traces d ''y'') = length (traces data0 ''y'')"
    by (simp add: data0_def)
qed

end
